theory Spec2Isabelle
  imports Complex_Main
begin

section \<open>Strings and values of the JavaScript run time\<close>

text \<open>
  A JavaScript string is a sequence of UTF-16 code units; a code unit is written as the
  integer (0 to 65535) that it is.
  \<open>js\<close> turns an ASCII literal into such a string.
\<close>

type_synonym jsstring = "int list"

definition js :: "string \<Rightarrow> jsstring" where
  "js s = map of_char s"

text \<open>
  The values the front end handles (\<open>unknown\<close> in \<open>parseActionToObject\<close>). Numbers are
  kept as exact rationals: no property below depends on the rounding to a double.
  \<open>JFunction\<close> stands for a function value (\<open>typeof\<close> is \<open>'function'\<close>).
\<close>

datatype jsval =
    JUndefined
  | JNull
  | JBool bool
  | JNum rat
  | JNaN
  | JStr jsstring
  | JObj "(jsstring \<times> jsval) list"
  | JArr "jsval list"
  | JFunction

text \<open>\<open>!v\<close> is \<open>\<not> truthy v\<close>.\<close>

fun truthy :: "jsval \<Rightarrow> bool" where
  "truthy JUndefined = False"
| "truthy JNull = False"
| "truthy (JBool b) = b"
| "truthy (JNum r) = (r \<noteq> 0)"
| "truthy JNaN = False"
| "truthy (JStr s) = (s \<noteq> [])"
| "truthy (JObj fs) = True"
| "truthy (JArr vs) = True"
| "truthy JFunction = True"

text \<open>\<open>typeof v === 'object'\<close>: objects, arrays and \<open>null\<close>.\<close>

fun typeofObject :: "jsval \<Rightarrow> bool" where
  "typeofObject JNull = True"
| "typeofObject (JObj fs) = True"
| "typeofObject (JArr vs) = True"
| "typeofObject v = False"

text \<open>A nullable string field (\<open>string | null\<close>) is truthy when it is a non-empty string.\<close>

fun truthyStr :: "jsstring option \<Rightarrow> bool" where
  "truthyStr None = False"
| "truthyStr (Some s) = (s \<noteq> [])"

text \<open>
  An object is its list of own properties in insertion order; an assignment
  \<open>obj[key] = value\<close> replaces the value of an existing key and appends a new one.
\<close>

fun obj_set :: "(jsstring \<times> jsval) list \<Rightarrow> jsstring \<Rightarrow> jsval \<Rightarrow> (jsstring \<times> jsval) list" where
  "obj_set [] k v = [(k, v)]"
| "obj_set ((k', v') # fs) k v = (if k' = k then (k, v) # fs else (k', v') # obj_set fs k v)"

text \<open>Property read \<open>obj[key]\<close>: \<open>undefined\<close> when the key is absent.\<close>

definition obj_get :: "jsval \<Rightarrow> jsstring \<Rightarrow> jsval" where
  "obj_get v k = (case v of
       JObj fs \<Rightarrow> (case map_of fs k of Some x \<Rightarrow> x | None \<Rightarrow> JUndefined)
     | _ \<Rightarrow> JUndefined)"

subsection \<open>Character classes and \<open>String.prototype.trim\<close>\<close>

text \<open>White space and line terminators of ECMAScript: what \<open>trim\<close> strips and \<open>\s\<close> matches.\<close>

definition isWhiteSpace :: "int \<Rightarrow> bool" where
  "isWhiteSpace c \<longleftrightarrow>
     c = 9 \<or> c = 10 \<or> c = 11 \<or> c = 12 \<or> c = 13 \<or> c = 32 \<or> c = 160 \<or> c = 5760
     \<or> (8192 \<le> c \<and> c \<le> 8202) \<or> c = 8232 \<or> c = 8233 \<or> c = 8239 \<or> c = 8287
     \<or> c = 12288 \<or> c = 65279"

definition trim :: "jsstring \<Rightarrow> jsstring" where
  "trim s = rev (dropWhile isWhiteSpace (rev (dropWhile isWhiteSpace s)))"

text \<open>\<open>\d\<close> and \<open>\w\<close> (ASCII only, also under the \<open>i\<close> flag without the \<open>u\<close> flag).\<close>

definition isDigit :: "int \<Rightarrow> bool" where
  "isDigit c \<longleftrightarrow> 48 \<le> c \<and> c \<le> 57"

definition isWordChar :: "int \<Rightarrow> bool" where
  "isWordChar c \<longleftrightarrow> isDigit c \<or> (65 \<le> c \<and> c \<le> 90) \<or> c = 95 \<or> (97 \<le> c \<and> c \<le> 122)"

text \<open>
  Canonicalisation of the \<open>i\<close> flag, as far as an ASCII pattern character can tell: a-z
  fold to A-Z, and no code unit outside ASCII folds into ASCII.
\<close>

definition asciiUpper :: "int \<Rightarrow> int" where
  "asciiUpper c = (if 97 \<le> c \<and> c \<le> 122 then c - 32 else c)"

text \<open>A literal piece of a pattern, matched at the head of the input: the rest after it.\<close>

fun matchLit :: "jsstring \<Rightarrow> jsstring \<Rightarrow> jsstring option" where
  "matchLit [] s = Some s"
| "matchLit (p # ps) [] = None"
| "matchLit (p # ps) (c # cs) = (if c = p then matchLit ps cs else None)"

fun matchLitCI :: "jsstring \<Rightarrow> jsstring \<Rightarrow> jsstring option" where
  "matchLitCI [] s = Some s"
| "matchLitCI (p # ps) [] = None"
| "matchLitCI (p # ps) (c # cs) =
     (if asciiUpper c = asciiUpper p then matchLitCI ps cs else None)"

text \<open>
  The search of a regular expression engine: the pattern \<open>m\<close> is tried at the head of the
  input, then one code unit further, and so on; the result is the skipped prefix and what
  \<open>m\<close> returned at the first position where it matched. The same function is the lazy
  quantifier \<open>[\s\S]*?\<close> followed by the rest \<open>m\<close> of a pattern: the skipped prefix is what
  the quantifier consumed.
\<close>

fun firstMatch :: "(jsstring \<Rightarrow> 'a option) \<Rightarrow> jsstring \<Rightarrow> (jsstring \<times> 'a) option" where
  "firstMatch m [] = (case m [] of Some r \<Rightarrow> Some ([], r) | None \<Rightarrow> None)"
| "firstMatch m (c # cs) =
     (case m (c # cs) of
        Some r \<Rightarrow> Some ([], r)
      | None \<Rightarrow> (case firstMatch m cs of Some (p, r) \<Rightarrow> Some (c # p, r) | None \<Rightarrow> None))"

section \<open>\<open>JSON.parse\<close>\<close>

text \<open>
  The built-in the first format of \<open>parseActionToObject\<close> calls, after ECMA-404: \<open>None\<close>
  is the \<open>SyntaxError\<close> it throws. Every function returns the value read and the input
  left over.
\<close>

definition isJsonWs :: "int \<Rightarrow> bool" where
  "isJsonWs c \<longleftrightarrow> c = 32 \<or> c = 9 \<or> c = 10 \<or> c = 13"

definition skipWs :: "jsstring \<Rightarrow> jsstring" where
  "skipWs s = dropWhile isJsonWs s"

definition digitsVal :: "jsstring \<Rightarrow> int" where
  "digitsVal ds = foldl (\<lambda>a c. 10 * a + (c - 48)) 0 ds"

definition hexVal :: "int \<Rightarrow> int option" where
  "hexVal c = (if isDigit c then Some (c - 48)
               else if 65 \<le> c \<and> c \<le> 70 then Some (c - 55)
               else if 97 \<le> c \<and> c \<le> 102 then Some (c - 87)
               else None)"

definition unescape :: "int \<Rightarrow> int option" where
  "unescape e = (if e = 34 \<or> e = 92 \<or> e = 47 then Some e
                 else if e = 98 then Some 8
                 else if e = 102 then Some 12
                 else if e = 110 then Some 10
                 else if e = 114 then Some 13
                 else if e = 116 then Some 9
                 else None)"

text \<open>A string after its opening quote, up to and including the closing quote.\<close>

fun parseStringBody :: "jsstring \<Rightarrow> jsstring \<Rightarrow> (jsstring \<times> jsstring) option" where
  "parseStringBody [] acc = None"
| "parseStringBody (c # cs) acc =
     (if c = 34 then Some (acc, cs)
      else if c = 92 then
        (case cs of
           [] \<Rightarrow> None
         | e # es \<Rightarrow>
             if e = 117 then
               (case es of
                  h1 # h2 # h3 # h4 # r \<Rightarrow>
                    (case (hexVal h1, hexVal h2, hexVal h3, hexVal h4) of
                       (Some a, Some b, Some c', Some d) \<Rightarrow>
                         parseStringBody r (acc @ [((a * 16 + b) * 16 + c') * 16 + d])
                     | _ \<Rightarrow> None)
                | _ \<Rightarrow> None)
             else (case unescape e of
                     Some u \<Rightarrow> parseStringBody es (acc @ [u])
                   | None \<Rightarrow> None))
      else if c < 32 then None
      else parseStringBody cs (acc @ [c]))"

text \<open>
  A number: \<open>-? (0 | [1-9][0-9]*) (. [0-9]+)? ([eE] [+-]? [0-9]+)?\<close>.
\<close>

definition parseNumber :: "jsstring \<Rightarrow> (rat \<times> jsstring) option" where
  "parseNumber s =
     (let neg = (s \<noteq> [] \<and> hd s = 45);
          s1 = (if neg then tl s else s);
          ip = (if s1 \<noteq> [] \<and> hd s1 = 48 then [48] else takeWhile isDigit s1);
          s2 = drop (length ip) s1
      in if ip = [] then None
         else
           (let hasFrac = (s2 \<noteq> [] \<and> hd s2 = 46);
                fp = (if hasFrac then takeWhile isDigit (tl s2) else []);
                s3 = (if hasFrac then drop (length fp) (tl s2) else s2)
            in if hasFrac \<and> fp = [] then None
               else
                 (let hasExp = (s3 \<noteq> [] \<and> (hd s3 = 101 \<or> hd s3 = 69));
                      s4 = (if hasExp then tl s3 else s3);
                      eneg = (hasExp \<and> s4 \<noteq> [] \<and> hd s4 = 45);
                      s5 = (if hasExp \<and> s4 \<noteq> [] \<and> (hd s4 = 45 \<or> hd s4 = 43) then tl s4 else s4);
                      ep = (if hasExp then takeWhile isDigit s5 else []);
                      s6 = (if hasExp then drop (length ep) s5 else s3);
                      mant = of_int (digitsVal ip) + of_int (digitsVal fp) / 10 ^ length fp;
                      scaled = (if eneg then mant / 10 ^ nat (digitsVal ep)
                                else mant * 10 ^ nat (digitsVal ep))
                  in if hasExp \<and> ep = [] then None
                     else Some (if neg then - scaled else scaled, s6))))"

lemma length_skipWs: "length (skipWs s) \<le> length s"
  by (simp add: skipWs_def length_dropWhile_le)

text \<open>
  Values, array elements and object members. The comparisons \<open>length _ < length s\<close> hold
  at every call (each call has consumed a bracket, a comma or a colon; see
  \<open>parseElements_unguarded\<close> and \<open>parseMembers_unguarded\<close>); they are written out so
  that the recursion is seen to end.
\<close>

function parseValue :: "jsstring \<Rightarrow> (jsval \<times> jsstring) option"
  and parseElements :: "jsstring \<Rightarrow> jsval list \<Rightarrow> (jsval list \<times> jsstring) option"
  and parseMembers ::
    "jsstring \<Rightarrow> (jsstring \<times> jsval) list \<Rightarrow> ((jsstring \<times> jsval) list \<times> jsstring) option"
where
  "parseValue s =
     (case skipWs s of
        [] \<Rightarrow> None
      | c # cs \<Rightarrow>
          if c = 123 then
            (case skipWs cs of
               [] \<Rightarrow> None
             | d # ds \<Rightarrow>
                 if d = 125 then Some (JObj [], ds)
                 else (case parseMembers (d # ds) [] of
                         None \<Rightarrow> None
                       | Some (ms, r) \<Rightarrow> Some (JObj ms, r)))
          else if c = 91 then
            (case skipWs cs of
               [] \<Rightarrow> None
             | d # ds \<Rightarrow>
                 if d = 93 then Some (JArr [], ds)
                 else (case parseElements (d # ds) [] of
                         None \<Rightarrow> None
                       | Some (es, r) \<Rightarrow> Some (JArr es, r)))
          else if c = 34 then
            (case parseStringBody cs [] of
               None \<Rightarrow> None
             | Some (str, r) \<Rightarrow> Some (JStr str, r))
          else
            (case matchLit (js ''true'') (c # cs) of
               Some r \<Rightarrow> Some (JBool True, r)
             | None \<Rightarrow>
            (case matchLit (js ''false'') (c # cs) of
               Some r \<Rightarrow> Some (JBool False, r)
             | None \<Rightarrow>
            (case matchLit (js ''null'') (c # cs) of
               Some r \<Rightarrow> Some (JNull, r)
             | None \<Rightarrow>
            (case parseNumber (c # cs) of
               Some (n, r) \<Rightarrow> Some (JNum n, r)
             | None \<Rightarrow> None)))))"
| "parseElements s acc =
     (case parseValue s of
        None \<Rightarrow> None
      | Some (v, r) \<Rightarrow>
          (case skipWs r of
             [] \<Rightarrow> None
           | c # cs \<Rightarrow>
               if c = 93 then Some (acc @ [v], cs)
               else if c = 44 \<and> length cs < length s then parseElements cs (acc @ [v])
               else None))"
| "parseMembers s acc =
     (case skipWs s of
        [] \<Rightarrow> None
      | q # cs \<Rightarrow>
          if q \<noteq> 34 then None
          else
            (case parseStringBody cs [] of
               None \<Rightarrow> None
             | Some (key, r) \<Rightarrow>
                 (case skipWs r of
                    [] \<Rightarrow> None
                  | col # r1 \<Rightarrow>
                      if col = 58 \<and> length r1 < length s then
                        (case parseValue r1 of
                           None \<Rightarrow> None
                         | Some (v, r2) \<Rightarrow>
                             (case skipWs r2 of
                                [] \<Rightarrow> None
                              | e # r3 \<Rightarrow>
                                  if e = 125 then Some (obj_set acc key v, r3)
                                  else if e = 44 \<and> length r3 < length s
                                  then parseMembers r3 (obj_set acc key v)
                                  else None))
                      else None)))"
  by pat_completeness auto
termination
proof (relation "measure (\<lambda>x. case x of
          Inl s \<Rightarrow> 2 * length s
        | Inr (Inl (s, acc)) \<Rightarrow> 2 * length s + 1
        | Inr (Inr (s, acc)) \<Rightarrow> 2 * length s + 1)", goal_cases)
  case 1
  show ?case by simp
next
  case (2 s c cs d ds)
  then show ?case
    using length_skipWs [of s] length_skipWs [of cs] by simp
next
  case (3 s c cs d ds)
  then show ?case
    using length_skipWs [of s] length_skipWs [of cs] by simp
qed simp_all

declare parseValue.simps [simp del] parseElements.simps [simp del] parseMembers.simps [simp del]

definition JSON_parse :: "jsstring \<Rightarrow> jsval option" where
  "JSON_parse text =
     (case parseValue text of
        None \<Rightarrow> None
      | Some (v, r) \<Rightarrow> if skipWs r = [] then Some v else None)"

section \<open>\<open>parseActionToObject\<close> (components/ChatSteps.tsx)\<close>

subsection \<open>The regular expressions\<close>

text \<open>
  Format 1, \<open>/\{[\s\S]*?"action"[\s\S]*?\}/i\<close>. At one start position: an opening brace,
  lazily anything, the quoted word \<open>"action"\<close> in any letter case, lazily anything, a
  closing brace. The result is the number of code units between the opening brace and
  the closing one.
\<close>

definition closeBraceAt :: "jsstring \<Rightarrow> unit option" where
  "closeBraceAt s = (case s of [] \<Rightarrow> None | c # cs \<Rightarrow> if c = 125 then Some () else None)"

definition actionThenBraceAt :: "jsstring \<Rightarrow> nat option" where
  "actionThenBraceAt s =
     (case matchLitCI [34, 97, 99, 116, 105, 111, 110, 34] s of
        None \<Rightarrow> None
      | Some r \<Rightarrow> (case firstMatch closeBraceAt r of
                    None \<Rightarrow> None
                  | Some (p2, u) \<Rightarrow> Some (8 + length p2)))"

definition jsonAt :: "jsstring \<Rightarrow> jsstring option" where
  "jsonAt s =
     (case s of
        [] \<Rightarrow> None
      | c # cs \<Rightarrow>
          if c = 123 then
            (case firstMatch actionThenBraceAt cs of
               None \<Rightarrow> None
             | Some (p1, n) \<Rightarrow> Some (take (1 + length p1 + n + 1) s))
          else None)"

text \<open>\<open>actionStr.match(...)\<close>: the text of the first match, \<open>jsonMatch[0]\<close>.\<close>

definition jsonMatch :: "jsstring \<Rightarrow> jsstring option" where
  "jsonMatch s = (case firstMatch jsonAt s of None \<Rightarrow> None | Some (pre, m) \<Rightarrow> Some m)"

text \<open>
  Format 2, \<open>/^(\w+)\((.*)\)$/s\<close>: the groups \<open>funcMatch[1]\<close> and \<open>funcMatch[2]\<close>. The
  name is the longest run of word characters (a shorter one is followed by a word
  character, not by the parenthesis); with the \<open>s\<close> flag the dot matches every code unit, so
  the arguments are all that stands before the last code unit, which must be the closing
  parenthesis.
\<close>

definition funcMatch :: "jsstring \<Rightarrow> (jsstring \<times> jsstring) option" where
  "funcMatch s =
     (let name = takeWhile isWordChar s; r = dropWhile isWordChar s
      in if name = [] then None
         else (case r of
                 [] \<Rightarrow> None
               | c # args \<Rightarrow>
                   if c = 40 \<and> args \<noteq> [] \<and> last args = 41 then Some (name, butlast args)
                   else None))"

text \<open>Format 3, \<open>/^\[?(\w+)\]?$/i\<close>: the group \<open>simpleMatch[1]\<close>.\<close>

definition simpleMatch :: "jsstring \<Rightarrow> jsstring option" where
  "simpleMatch s =
     (let s1 = (if s \<noteq> [] \<and> hd s = 91 then tl s else s);
          name = takeWhile isWordChar s1;
          r = dropWhile isWordChar s1
      in if name \<noteq> [] \<and> (r = [] \<or> r = [93]) then Some name else None)"

text \<open>
  The parameters, \<open>/(\w+)=("([^"]*)"|'([^']*)'|(\d+)|(\w+))/g\<close>, at one start position: the
  key and the groups 3 to 6 (\<open>None\<close> is \<open>undefined\<close>: the alternative did not take part), and
  the input after the match. The alternatives are tried in the order written.
\<close>

definition quotedAt :: "int \<Rightarrow> jsstring \<Rightarrow> (jsstring \<times> jsstring) option" where
  "quotedAt q v =
     (case v of
        [] \<Rightarrow> None
      | c # cs \<Rightarrow>
          if c = q then
            (case dropWhile (\<lambda>x. x \<noteq> q) cs of
               [] \<Rightarrow> None
             | e # rest \<Rightarrow> Some (takeWhile (\<lambda>x. x \<noteq> q) cs, rest))
          else None)"

record paramGroups =
  key :: jsstring
  group3 :: "jsstring option"
  group4 :: "jsstring option"
  group5 :: "jsstring option"
  group6 :: "jsstring option"

definition paramAt :: "jsstring \<Rightarrow> (paramGroups \<times> jsstring) option" where
  "paramAt s =
     (let k = takeWhile isWordChar s; r = dropWhile isWordChar s
      in if k = [] then None
         else (case r of
                 [] \<Rightarrow> None
               | eq # v \<Rightarrow>
                   if eq \<noteq> 61 then None
                   else
                     (case quotedAt 34 v of
                        Some (c, rest) \<Rightarrow>
                          Some (\<lparr>key = k, group3 = Some c, group4 = None, group5 = None,
                                  group6 = None\<rparr>, rest)
                      | None \<Rightarrow>
                     (case quotedAt 39 v of
                        Some (c, rest) \<Rightarrow>
                          Some (\<lparr>key = k, group3 = None, group4 = Some c, group5 = None,
                                  group6 = None\<rparr>, rest)
                      | None \<Rightarrow>
                          if takeWhile isDigit v \<noteq> [] then
                            Some (\<lparr>key = k, group3 = None, group4 = None,
                                    group5 = Some (takeWhile isDigit v), group6 = None\<rparr>,
                                  dropWhile isDigit v)
                          else if takeWhile isWordChar v \<noteq> [] then
                            Some (\<lparr>key = k, group3 = None, group4 = None, group5 = None,
                                    group6 = Some (takeWhile isWordChar v)\<rparr>,
                                  dropWhile isWordChar v)
                          else None))))"

text \<open>
  \<open>match[3] || match[4] || (match[5] ? parseInt(match[5]) : match[6])\<close>: an empty string
  is falsy, so an empty quoted value falls through to \<open>match[6]\<close>, which is \<open>undefined\<close>
  then.
\<close>

definition parseInt :: "jsstring \<Rightarrow> jsval" where
  "parseInt ds = JNum (of_int (digitsVal ds))"

definition strOrUndefined :: "jsstring option \<Rightarrow> jsval" where
  "strOrUndefined g = (case g of Some s \<Rightarrow> JStr s | None \<Rightarrow> JUndefined)"

definition paramValue :: "paramGroups \<Rightarrow> jsval" where
  "paramValue g =
     (if truthyStr (group3 g) then strOrUndefined (group3 g)
      else if truthyStr (group4 g) then strOrUndefined (group4 g)
      else if truthyStr (group5 g) then parseInt (the (group5 g))
      else strOrUndefined (group6 g))"

text \<open>
  \<open>result[key] = value\<close> on an ordinary object, for the values \<open>paramValue\<close> gives (strings,
  numbers and \<open>undefined\<close>): the key \<open>__proto__\<close> is the prototype accessor, which ignores a
  value that is no object; every other key becomes an own property.
\<close>

definition assignProp :: "(jsstring \<times> jsval) list \<Rightarrow> jsstring \<Rightarrow> jsval \<Rightarrow> (jsstring \<times> jsval) list" where
  "assignProp result k v = (if k = js ''__proto__'' then result else obj_set result k v)"

lemma firstMatch_length:
  assumes "firstMatch m s = Some (p, r)"
  shows "length p \<le> length s \<and> m (drop (length p) s) = Some r"
  using assms
proof (induction s arbitrary: p)
  case Nil
  then show ?case by (auto split: option.splits)
next
  case (Cons c cs)
  then show ?case by (fastforce split: option.splits)
qed

lemma quotedAt_shorter: "quotedAt q v = Some (c, rest) \<Longrightarrow> length rest < length v"
proof -
  assume a: "quotedAt q v = Some (c, rest)"
  then obtain cs e where v: "v = q # cs" and d: "dropWhile (\<lambda>x. x \<noteq> q) cs = e # rest"
    by (auto simp: quotedAt_def split: list.splits if_splits)
  have "length (dropWhile (\<lambda>x. x \<noteq> q) cs) \<le> length cs"
    by (rule length_dropWhile_le)
  with v d show ?thesis by simp
qed

lemma paramAt_shorter:
  assumes "paramAt s = Some (g, rest)"
  shows "length rest < length s"
proof -
  from assms obtain v where r: "dropWhile isWordChar s = 61 # v"
    by (auto simp: paramAt_def Let_def split: list.splits if_splits)
  have "length (dropWhile isWordChar s) \<le> length s"
    by (rule length_dropWhile_le)
  with r have v: "length v < length s" by simp
  have "length rest \<le> length v"
    using assms r quotedAt_shorter [of 34 v] quotedAt_shorter [of 39 v]
      length_dropWhile_le [of isDigit v] length_dropWhile_le [of isWordChar v]
    by (fastforce simp: paramAt_def Let_def split: option.splits if_splits)
  with v show ?thesis by simp
qed

lemma firstMatch_paramAt_shorter:
  assumes "firstMatch paramAt s = Some (p, (g, rest))"
  shows "length rest < length s"
proof -
  from firstMatch_length [OF assms]
  have "paramAt (drop (length p) s) = Some (g, rest)" by simp
  from paramAt_shorter [OF this] show ?thesis by simp
qed

text \<open>
  The loop \<open>while ((match = paramRegex.exec(paramsStr)) !== null)\<close>: \<open>exec\<close> searches from
  \<open>lastIndex\<close>, which a match moves to its end.
\<close>

function paramLoop :: "jsstring \<Rightarrow> (jsstring \<times> jsval) list \<Rightarrow> (jsstring \<times> jsval) list" where
  "paramLoop paramsStr result =
     (case firstMatch paramAt paramsStr of
        None \<Rightarrow> result
      | Some (skipped, (g, rest)) \<Rightarrow> paramLoop rest (assignProp result (key g) (paramValue g)))"
  by pat_completeness auto
termination
  by (relation "measure (\<lambda>(s, r). length s)") (auto dest: firstMatch_paramAt_shorter)

declare paramLoop.simps [simp del]

subsection \<open>The function\<close>

definition parseActionToObject :: "jsval \<Rightarrow> jsval" where
  "parseActionToObject action =
     (if \<not> truthy action then JNull
      else if typeofObject action then action
      else
        (case action of
           JStr a \<Rightarrow>
             (let actionStr = trim a
              in if actionStr = [] then JNull
                 else
                   (case (case jsonMatch actionStr of
                            None \<Rightarrow> None
                          | Some m \<Rightarrow> JSON_parse m) of
                      Some v \<Rightarrow> v
                    | None \<Rightarrow>
                        (case funcMatch actionStr of
                           Some (actionName, paramsStr) \<Rightarrow>
                             JObj (paramLoop paramsStr [(js ''action'', JStr actionName)])
                         | None \<Rightarrow>
                             (case simpleMatch actionStr of
                                Some name \<Rightarrow> JObj [(js ''action'', JStr name)]
                              | None \<Rightarrow> JNull))))
         | _ \<Rightarrow> JNull))"

section \<open>Execution steps and chat items (types/index.ts, components/ChatSteps.tsx)\<close>

record ExecutionStep =
  step :: int
  action :: jsval
  thinking :: "jsstring option"
  description :: "jsstring option"
  screenshot :: "jsstring option"
  timestamp :: jsstring

record StepInfo =
  si_step :: int
  si_thinking :: jsstring
  si_action :: jsval
  si_finished :: bool
  si_success :: bool
  si_message :: "jsstring option"

datatype ChatItemType = User | Thinking | Action | Result | Error | Takeover | Sensitive

text \<open>\<open>new Date(step.timestamp)\<close>, and \<open>new Date()\<close> at a reading of the clock.\<close>

datatype jsdate = DateOfString jsstring | DateAt int

record ChatItem =
  item_id :: int
  item_type :: ChatItemType
  item_content :: "jsstring option"
  item_timestamp :: jsdate
  stepInfo :: "StepInfo option"
  actionData :: "jsval option"

section \<open>The step list of an execution (pages/ExecutionDetail.tsx)\<close>

subsection \<open>The regular expressions of the legacy description\<close>

text \<open>
  \<open>(?:ing)?>\<close> after \<open><think\<close> or \<open></think\<close>: the optional group is tried first, and
  left out when the closing angle does not follow it.
\<close>

definition tagEndAt :: "jsstring \<Rightarrow> jsstring option" where
  "tagEndAt r =
     (case (case matchLitCI (js ''ing'') r of
              Some r1 \<Rightarrow> matchLitCI (js ''>'') r1
            | None \<Rightarrow> None) of
        Some r2 \<Rightarrow> Some r2
      | None \<Rightarrow> matchLitCI (js ''>'') r)"

definition thinkOpenAt :: "jsstring \<Rightarrow> jsstring option" where
  "thinkOpenAt s = (case matchLitCI (js ''<think'') s of None \<Rightarrow> None | Some r \<Rightarrow> tagEndAt r)"

definition thinkCloseAt :: "jsstring \<Rightarrow> jsstring option" where
  "thinkCloseAt s = (case matchLitCI (js ''</think'') s of None \<Rightarrow> None | Some r \<Rightarrow> tagEndAt r)"

text \<open>
  \<open>/<think(?:ing)?>([\s\S]*?)<\/think(?:ing)?>/i\<close> at one start position: group 1 and the
  input after the match.
\<close>

definition thinkAt :: "jsstring \<Rightarrow> (jsstring \<times> jsstring) option" where
  "thinkAt s = (case thinkOpenAt s of None \<Rightarrow> None | Some r \<Rightarrow> firstMatch thinkCloseAt r)"

text \<open>\<open>description.match(...)\<close>: group 1 of the first match.\<close>

definition thinkMatch :: "jsstring \<Rightarrow> jsstring option" where
  "thinkMatch d =
     (case firstMatch thinkAt d of None \<Rightarrow> None | Some (pre, (inner, rest)) \<Rightarrow> Some inner)"

text \<open>\<open>/<answer>([\s\S]*?)<\/answer>/i\<close>.\<close>

definition answerAt :: "jsstring \<Rightarrow> (jsstring \<times> jsstring) option" where
  "answerAt s =
     (case matchLitCI (js ''<answer>'') s of
        None \<Rightarrow> None
      | Some r \<Rightarrow> firstMatch (matchLitCI (js ''</answer>'')) r)"

definition answerMatch :: "jsstring \<Rightarrow> jsstring option" where
  "answerMatch d =
     (case firstMatch answerAt d of None \<Rightarrow> None | Some (pre, (inner, rest)) \<Rightarrow> Some inner)"

text \<open>\<open>/<\/?answer>/gi\<close> at one start position: the input after the tag.\<close>

definition answerTagAt :: "jsstring \<Rightarrow> jsstring option" where
  "answerTagAt s =
     (case matchLitCI (js ''</answer>'') s of
        Some r \<Rightarrow> Some r
      | None \<Rightarrow> matchLitCI (js ''<answer>'') s)"

text \<open>
  \<open>s.replace(pattern, '')\<close> with the \<open>g\<close> flag: every match is removed, each search starting
  where the last match ended. \<open>m\<close> gives the input after a match at the head. The patterns
  used here match at least one code unit, so the input left is always shorter.
\<close>

function eraseAll :: "(jsstring \<Rightarrow> jsstring option) \<Rightarrow> jsstring \<Rightarrow> jsstring" where
  "eraseAll m s =
     (case firstMatch m s of
        None \<Rightarrow> s
      | Some (p, rest) \<Rightarrow> if length rest < length s then p @ eraseAll m rest else p @ rest)"
  by pat_completeness auto
termination
  by (relation "measure (\<lambda>(m, s). length s)") auto

declare eraseAll.simps [simp del]

definition stripThink :: "jsstring \<Rightarrow> jsstring" where
  "stripThink d = eraseAll (\<lambda>s. map_option snd (thinkAt s)) d"

definition stripAnswerTags :: "jsstring \<Rightarrow> jsstring" where
  "stripAnswerTags d = eraseAll answerTagAt d"

subsection \<open>\<open>parseStepData\<close> and \<open>convertStepsToChatItems\<close>\<close>

definition parseStepData :: "ExecutionStep \<Rightarrow> jsstring option \<times> jsval" where
  "parseStepData st =
     (let thinking0 = (if truthyStr (thinking st) then thinking st else None);
          action0 = (if truthy (action st) then parseActionToObject (action st) else JNull)
      in if truthyStr thinking0 \<or> truthy action0 then (thinking0, action0)
         else
           (let desc = (if truthyStr (description st) then the (description st) else [])
            in if desc = [] then (None, JNull)
               else
                 (let thinking1 = (case thinkMatch desc of
                                     Some inner \<Rightarrow> Some (trim inner)
                                   | None \<Rightarrow> thinking0);
                      answer = (case answerMatch desc of
                                  Some inner \<Rightarrow> trim inner
                                | None \<Rightarrow> trim (stripAnswerTags (stripThink desc)))
                  in (thinking1, parseActionToObject (JStr answer)))))"

text \<open>
  One round of the loop of \<open>convertStepsToChatItems\<close>: the next free id and the items
  pushed so far, before and after the step.
\<close>

definition convertStep :: "ExecutionStep \<Rightarrow> int \<times> ChatItem list \<Rightarrow> int \<times> ChatItem list" where
  "convertStep st acc =
     (let (th, act) = parseStepData st;
          ts = DateOfString (timestamp st);
          acc1 = (if truthyStr th then
                    (fst acc + 1,
                     snd acc @ [\<lparr>item_id = fst acc, item_type = Thinking, item_content = th,
                        item_timestamp = ts,
                        stepInfo = Some \<lparr>si_step = step st, si_thinking = the th, si_action = act,
                          si_finished = False, si_success = True, si_message = None\<rparr>,
                        actionData = None\<rparr>])
                  else acc)
      in if truthy act then
           (fst acc1 + 1,
            snd acc1 @ [\<lparr>item_id = fst acc1, item_type = Action, item_content = Some [],
               item_timestamp = ts,
               stepInfo = Some \<lparr>si_step = step st,
                 si_thinking = (if truthyStr th then the th else []), si_action = act,
                 si_finished = False, si_success = True, si_message = None\<rparr>,
               actionData = Some act\<rparr>])
         else if \<not> truthyStr th \<and> truthyStr (description st) then
           (let cleanDesc = trim (stripAnswerTags (stripThink (the (description st))))
            in if cleanDesc \<noteq> [] then
                 (fst acc1 + 1,
                  snd acc1 @ [\<lparr>item_id = fst acc1, item_type = Thinking,
                     item_content = Some cleanDesc, item_timestamp = ts,
                     stepInfo = Some \<lparr>si_step = step st, si_thinking = cleanDesc,
                       si_action = JNull, si_finished = False, si_success = True,
                       si_message = None\<rparr>,
                     actionData = None\<rparr>])
               else acc1)
         else acc1)"

definition convertStepsToChatItems :: "ExecutionStep list \<Rightarrow> ChatItem list" where
  "convertStepsToChatItems steps = snd (foldl (\<lambda>acc st. convertStep st acc) (1, []) steps)"

subsection \<open>The listeners of the event source\<close>

record TokenEvent =
  tok_step :: int
  tok_phase :: jsstring
  tok_content :: jsstring

text \<open>The two typewriter buffers, which both pages keep.\<close>

record streaming =
  streamingThinking :: jsstring
  streamingAction :: jsstring

text \<open>
  The state of the page while it streams: \<open>currentStep\<close> is the variable of the effect's
  closure, \<open>closed\<close> says that \<open>eventSource.close()\<close> was called.
\<close>

record detail_state = streaming +
  streamSteps :: "ExecutionStep list"
  isStreaming :: bool
  currentStreamStep :: int
  currentStep :: int
  closed :: bool

definition tokenListener :: "TokenEvent \<Rightarrow> detail_state \<Rightarrow> detail_state" where
  "tokenListener token st =
     (let st1 = (if tok_step token \<noteq> currentStep st
                 then st\<lparr>currentStep := tok_step token, currentStreamStep := tok_step token,
                        streamingThinking := [], streamingAction := []\<rparr>
                 else st)
      in if tok_phase token = js ''thinking''
         then st1\<lparr>streamingThinking := streamingThinking st1 @ tok_content token\<rparr>
         else if tok_phase token = js ''action''
         then st1\<lparr>streamingAction := streamingAction st1 @ tok_content token\<rparr>
         else st1)"

text \<open>The updater passed to \<open>setStreamSteps\<close>.\<close>

definition addStep :: "ExecutionStep list \<Rightarrow> ExecutionStep \<Rightarrow> ExecutionStep list" where
  "addStep prev new = (if list_ex (\<lambda>s. step s = step new) prev then prev else prev @ [new])"

definition stepListener :: "ExecutionStep \<Rightarrow> detail_state \<Rightarrow> detail_state" where
  "stepListener new st =
     st\<lparr>streamSteps := addStep (streamSteps st) new,
        streamingThinking := [], streamingAction := []\<rparr>"

definition doneListener :: "detail_state \<Rightarrow> detail_state" where
  "doneListener st =
     st\<lparr>streamingThinking := [], streamingAction := [], closed := True, isStreaming := False\<rparr>"

definition errorListener :: "detail_state \<Rightarrow> detail_state" where
  "errorListener st = st\<lparr>isStreaming := False, closed := True\<rparr>"

section \<open>The debug console (pages/Debug.tsx)\<close>

record SensitiveAction =
  sa_message :: "jsstring option"
  sa_step :: int
  sa_action :: jsval

text \<open>
  The payload of a \<open>data:\<close> line after \<open>JSON.parse\<close>, with the fields the handler reads,
  typed as the interfaces \<open>StepInfo\<close> and \<open>SensitiveAction\<close> and the event vocabulary type
  them. \<open>d_takeover\<close> is \<open>data.takeover === true\<close>, \<open>d_sensitive\<close> is
  \<open>data.sensitive === true\<close>, \<open>d_paused\<close> is the truth value of \<open>data.paused\<close>.
\<close>

record sse_data =
  d_type :: jsstring
  d_step :: int
  d_phase :: jsstring
  d_content :: jsstring
  d_thinking :: jsstring
  d_action :: jsval
  d_finished :: bool
  d_success :: bool
  d_message :: "jsstring option"
  d_takeover :: bool
  d_sensitive :: bool
  d_paused :: bool
  d_pauseReason :: "jsstring option"

text \<open>
  The state of the component, and what it did to the world: \<open>requests\<close> are the commands
  posted to \<open>/debug/execute-stream\<close>, one per call of \<open>executeStream\<close>, and \<open>timeouts\<close> are
  the items whose push \<open>setTimeout\<close> has scheduled.
\<close>

record debug_state = streaming +
  chatItems :: "ChatItem list"
  input :: jsstring
  isExecuting :: bool
  sensitiveAction :: "SensitiveAction option"
  pendingCommand :: "jsstring option"
  currentStreamStepRef :: int
  requests :: "jsstring list"
  timeouts :: "ChatItem list"

definition pushItem :: "ChatItem \<Rightarrow> debug_state \<Rightarrow> debug_state" where
  "pushItem item st = st\<lparr>chatItems := chatItems st @ [item]\<rparr>"

definition plainItem :: "int \<Rightarrow> ChatItemType \<Rightarrow> jsstring option \<Rightarrow> ChatItem" where
  "plainItem now ty c =
     \<lparr>item_id = now, item_type = ty, item_content = c, item_timestamp = DateAt now,
      stepInfo = None, actionData = None\<rparr>"

definition clearStream :: "debug_state \<Rightarrow> debug_state" where
  "clearStream st = st\<lparr>streamingThinking := [], streamingAction := [], currentStreamStepRef := 0\<rparr>"

text \<open>
  The body of \<open>executeStream\<close> before the request: the stream state is reset and the
  command is posted.
\<close>

definition executeStream :: "jsstring \<Rightarrow> debug_state \<Rightarrow> debug_state" where
  "executeStream command st = (clearStream st)\<lparr>requests := requests st @ [command]\<rparr>"

text \<open>Whether the reading loop goes on to the next line or the function returns.\<close>

datatype flow = Continue | Return

definition stepInfoOf :: "sse_data \<Rightarrow> StepInfo" where
  "stepInfoOf d =
     \<lparr>si_step = d_step d, si_thinking = d_thinking d, si_action = d_action d,
      si_finished = d_finished d, si_success = d_success d, si_message = d_message d\<rparr>"

text \<open>
  What the loop does with one parsed \<open>data:\<close> payload. \<open>command\<close> is the argument of
  \<open>executeStream\<close>, \<open>now\<close> the clock (\<open>Date.now()\<close>), \<open>eventType\<close> the local variable the
  last \<open>event:\<close> line set.
\<close>

definition handleData :: "jsstring \<Rightarrow> int \<Rightarrow> jsstring \<Rightarrow> sse_data \<Rightarrow> debug_state \<Rightarrow> flow \<times> debug_state" where
  "handleData command now eventType d st =
     (if eventType = js ''token'' \<or> d_type d = js ''token'' then
        (let st1 = (if d_step d \<noteq> currentStreamStepRef st
                    then st\<lparr>streamingThinking := [], streamingAction := [],
                           currentStreamStepRef := d_step d\<rparr>
                    else st)
         in (Continue,
             if d_phase d = js ''thinking''
             then st1\<lparr>streamingThinking := streamingThinking st1 @ d_content d\<rparr>
             else if d_phase d = js ''action''
             then st1\<lparr>streamingAction := streamingAction st1 @ d_content d\<rparr>
             else st1))
      else if d_type d = js ''start'' then (Continue, st)
      else if d_type d = js ''step'' then
        (let info = stepInfoOf d;
             st1 = st\<lparr>streamingThinking := [], streamingAction := []\<rparr>;
             st2 = (if si_thinking info \<noteq> []
                    then pushItem \<lparr>item_id = now + si_step info * 100, item_type = Thinking,
                           item_content = Some (si_thinking info), item_timestamp = DateAt now,
                           stepInfo = Some info, actionData = None\<rparr> st1
                    else st1);
             st3 = (if truthy (si_action info) \<and> \<not> d_takeover d \<and> \<not> d_sensitive d
                    then (let a = parseActionToObject (si_action info)
                          in if truthy a
                             then pushItem \<lparr>item_id = now + si_step info * 100 + 1,
                                    item_type = Action, item_content = Some [],
                                    item_timestamp = DateAt now, stepInfo = Some info,
                                    actionData = Some a\<rparr> st2
                             else st2)
                    else st2)
         in (Continue,
             if si_finished info \<and> truthyStr (si_message info)
             then st3\<lparr>timeouts := timeouts st3 @
                    [\<lparr>item_id = now + 2000, item_type = Result, item_content = si_message info,
                      item_timestamp = DateAt now, stepInfo = None, actionData = None\<rparr>]\<rparr>
             else st3))
      else if d_type d = js ''sensitive'' then
        (Continue,
         pushItem (plainItem now Sensitive (d_message d))
           (st\<lparr>sensitiveAction :=
                 Some \<lparr>sa_message = d_message d, sa_step = d_step d, sa_action = d_action d\<rparr>\<rparr>))
      else if d_type d = js ''takeover'' then
        (Continue, pushItem (plainItem now Takeover (d_message d)) st)
      else if d_type d = js ''done'' then
        (let st1 = clearStream st
         in if d_paused d then
              (Return,
               if d_pauseReason d = Some (js ''sensitive'')
               then st1\<lparr>isExecuting := False, pendingCommand := Some command\<rparr>
               else st1\<lparr>isExecuting := False\<rparr>)
            else
              (Return,
               (if truthyStr (d_message d) \<and> \<not> d_success d
                then pushItem (plainItem now Result (d_message d)) st1
                else st1)\<lparr>isExecuting := False\<rparr>))
      else if d_type d = js ''error'' then
        (Return, (pushItem (plainItem now Error (d_message d)) (clearStream st))\<lparr>isExecuting := False\<rparr>)
      else (Continue, st))"

text \<open>
  The lines of the response, as the loop tells them apart: \<open>event: \<close> with the text after
  it, \<open>data: \<close> with its parsed payload (\<open>None\<close> when parsing or reading it throws, which
  the \<open>catch\<close> ignores), anything else.
\<close>

datatype sse_line = EventLine jsstring | DataLine "sse_data option" | OtherLine

fun processLines :: "jsstring \<Rightarrow> int \<Rightarrow> sse_line list \<Rightarrow> jsstring \<Rightarrow> debug_state \<Rightarrow> flow \<times> debug_state" where
  "processLines command now [] eventType st = (Continue, st)"
| "processLines command now (EventLine t # ls) eventType st =
     processLines command now ls (trim t) st"
| "processLines command now (DataLine None # ls) eventType st =
     processLines command now ls eventType st"
| "processLines command now (DataLine (Some d) # ls) eventType st =
     (case handleData command now eventType d st of
        (Return, st1) \<Rightarrow> (Return, st1)
      | (Continue, st1) \<Rightarrow> processLines command now ls eventType st1)"
| "processLines command now (OtherLine # ls) eventType st =
     processLines command now ls eventType st"

text \<open>\<open>handleSend\<close>, \<open>handleConfirmSensitive\<close> and \<open>handleCancelSensitive\<close>.\<close>

definition handleSend :: "int \<Rightarrow> debug_state \<Rightarrow> debug_state" where
  "handleSend now st =
     (if trim (input st) = [] \<or> isExecuting st then st
      else executeStream (trim (input st))
             ((pushItem (plainItem now User (Some (trim (input st)))) st)
                \<lparr>isExecuting := True, input := []\<rparr>))"

definition continueCommand :: jsstring where
  "continueCommand = [32487, 32493, 25191, 34892]"

definition confirmedMessage :: jsstring where
  "confirmedMessage =
     [24050, 30830, 35748, 25805, 20316, 65292, 32487, 32493, 25191, 34892, 46, 46, 46]"

definition cancelledMessage :: jsstring where
  "cancelledMessage = [24050, 21462, 28040, 25805, 20316]"

definition handleConfirmSensitive :: "int \<Rightarrow> debug_state \<Rightarrow> debug_state" where
  "handleConfirmSensitive now st =
     (let st1 = pushItem (plainItem now Result (Some confirmedMessage))
                  (st\<lparr>sensitiveAction := None\<rparr>)
      in if truthyStr (pendingCommand st)
         then (executeStream continueCommand (st1\<lparr>isExecuting := True\<rparr>))\<lparr>pendingCommand := None\<rparr>
         else st1)"

definition handleCancelSensitive :: "int \<Rightarrow> debug_state \<Rightarrow> debug_state" where
  "handleCancelSensitive now st =
     pushItem (plainItem now Error (Some cancelledMessage))
       (st\<lparr>sensitiveAction := None, pendingCommand := None\<rparr>)"

section \<open>Sample inputs\<close>

text \<open>Concrete steps, states and payloads at which the theorems below are instantiated.\<close>

definition exampleStep :: "int \<Rightarrow> ExecutionStep" where
  "exampleStep n =
     \<lparr>step = n, action = JNull, thinking = Some (js ''ok''), description = None,
      screenshot = None, timestamp = []\<rparr>"

definition exampleDetail :: detail_state where
  "exampleDetail =
     \<lparr>streamingThinking = js ''a'', streamingAction = js ''b'', streamSteps = [],
      isStreaming = True, currentStreamStep = 1, currentStep = 1, closed = False\<rparr>"

definition exampleDebug :: debug_state where
  "exampleDebug =
     \<lparr>streamingThinking = js ''a'', streamingAction = js ''b'', chatItems = [], input = [],
      isExecuting = True, sensitiveAction = None, pendingCommand = None,
      currentStreamStepRef = 1, requests = [js ''open the app''], timeouts = []\<rparr>"

definition exampleData :: "jsstring \<Rightarrow> sse_data" where
  "exampleData ty =
     \<lparr>d_type = ty, d_step = 2, d_phase = js ''thinking'', d_content = js ''c'',
      d_thinking = js ''look'', d_action = JStr (js ''Tap(x=1)''), d_finished = False,
      d_success = True, d_message = Some (js ''pay''), d_takeover = False, d_sensitive = False,
      d_paused = True, d_pauseReason = Some (js ''sensitive'')\<rparr>"

definition legacyStep :: "jsstring \<Rightarrow> ExecutionStep" where
  "legacyStep d =
     \<lparr>step = 1, action = JNull, thinking = None, description = Some d, screenshot = None,
      timestamp = js ''2025-01-01T08:00:00''\<rparr>"


section \<open>The accumulated step list\<close>

text \<open>Each index is the one before it plus one.\<close>

fun increasingByOne :: "int list \<Rightarrow> bool" where
  "increasingByOne [] = True"
| "increasingByOne [x] = True"
| "increasingByOne (x # y # r) = (y = x + 1 \<and> increasingByOne (y # r))"

lemma addStep_cases:
  "addStep prev new = (if step new \<in> set (map step prev) then prev else prev @ [new])"
proof -
  have "list_ex (\<lambda>s. step s = step new) prev \<longleftrightarrow> (\<exists>s \<in> set prev. step new = step s)"
    unfolding list_ex_iff by (rule bex_cong) auto
  then show ?thesis by (simp add: addStep_def image_iff)
qed

lemma addStep_distinct: "distinct (map step prev) \<Longrightarrow> distinct (map step (addStep prev new))"
  by (auto simp: addStep_cases)

lemma foldl_addStep_distinct:
  "distinct (map step prev) \<Longrightarrow> distinct (map step (foldl addStep prev events))"
  by (induction events arbitrary: prev) (simp_all add: addStep_distinct)

lemma increasingByOne_le_last:
  "increasingByOne xs \<Longrightarrow> x \<in> set xs \<Longrightarrow> x \<le> last xs"
proof (induction xs arbitrary: x rule: increasingByOne.induct)
  case (3 a b r)
  from "3.prems" (1) have "b = a + 1 \<and> increasingByOne (b # r)" by auto
  then have b: "b = a + 1" and inc: "increasingByOne (b # r)" by blast+
  have bl: "b \<le> last (b # r)" using "3.IH" [OF inc, of b] by simp
  show ?case
  proof (cases "x = a")
    case True
    with b bl show ?thesis by simp
  next
    case False
    with "3.prems" have "x \<in> set (b # r)" by simp
    from "3.IH" [OF inc this] show ?thesis by simp
  qed
qed simp_all

lemma increasingByOne_snoc:
  "increasingByOne xs \<Longrightarrow> xs = [] \<or> n = last xs + 1 \<Longrightarrow> increasingByOne (xs @ [n])"
  by (induction xs rule: increasingByOne.induct) auto

text \<open>
  C1, as stated, fails: the listener stores whatever new index arrives. After the events
  with the indices 1 and 3 the stored indices are 1, 3, which do not increase by exactly
  1; after 2 and 1 they are not even increasing.
\<close>

theorem step_indices_gap_counterexample:
  "map step (streamSteps (stepListener (exampleStep 3) (stepListener (exampleStep 1) exampleDetail)))
     = [1, 3]
   \<and> \<not> increasingByOne (map step
        (streamSteps (stepListener (exampleStep 3) (stepListener (exampleStep 1) exampleDetail))))
   \<and> map step (streamSteps (stepListener (exampleStep 1) (stepListener (exampleStep 2) exampleDetail)))
     = [2, 1]"
  by (simp add: stepListener_def addStep_def exampleStep_def exampleDetail_def)

text \<open>
  C1, amended. The listener guards against repeats only. From a list without repeated
  indices, every sequence of \<open>step\<close> events leaves a list without repeated indices (so from
  the empty list the indices never repeat); the state update of the listener is
  \<open>addStep\<close>, which leaves the stored list unchanged when the event's index equals a
  stored step's index and appends the step at the end otherwise; and the indices go on
  increasing by exactly 1 whenever the event's index is one more than the last stored
  one.
\<close>

theorem step_indices_never_repeat:
  "(distinct (map step prev) \<longrightarrow> distinct (map step (foldl addStep prev events)))
   \<and> streamSteps (stepListener new st) = addStep (streamSteps st) new
   \<and> addStep prev new = (if step new \<in> set (map step prev) then prev else prev @ [new])
   \<and> (increasingByOne (map step prev) \<and> (prev = [] \<or> step new = step (last prev) + 1)
        \<longrightarrow> addStep prev new = prev @ [new] \<and> increasingByOne (map step (addStep prev new)))"
proof -
  have ordered: "addStep prev new = prev @ [new] \<and> increasingByOne (map step (addStep prev new))"
    if inc: "increasingByOne (map step prev)"
      and nxt: "prev = [] \<or> step new = step (last prev) + 1"
  proof -
    have fresh: "step new \<notin> set (map step prev)"
    proof
      assume mem: "step new \<in> set (map step prev)"
      then have ne: "prev \<noteq> []" by auto
      from increasingByOne_le_last [OF inc mem] ne
      have "step new \<le> step (last prev)" by (simp add: last_map)
      with nxt ne show False by simp
    qed
    have "increasingByOne (map step prev @ [step new])"
    proof (cases "prev = []")
      case True
      then show ?thesis by simp
    next
      case False
      with nxt have "step new = last (map step prev) + 1" by (simp add: last_map)
      with inc show ?thesis by (intro increasingByOne_snoc) simp_all
    qed
    with fresh show ?thesis by (simp add: addStep_cases)
  qed
  have "distinct (map step prev) \<longrightarrow> distinct (map step (foldl addStep prev events))"
    by (simp add: foldl_addStep_distinct)
  moreover have "streamSteps (stepListener new st) = addStep (streamSteps st) new"
    by (simp add: stepListener_def)
  moreover note addStep_cases [of prev new]
  moreover have "increasingByOne (map step prev) \<and> (prev = [] \<or> step new = step (last prev) + 1)
        \<longrightarrow> addStep prev new = prev @ [new] \<and> increasingByOne (map step (addStep prev new))"
    using ordered by blast
  ultimately show ?thesis by blast
qed

theorem step_indices_never_repeat_witness:
  "distinct (map step [exampleStep 1, exampleStep 2])
   \<and> distinct (map step (foldl addStep [exampleStep 1, exampleStep 2]
        [exampleStep 2, exampleStep 3, exampleStep 1]))
   \<and> addStep [exampleStep 1, exampleStep 2] (exampleStep 2) = [exampleStep 1, exampleStep 2]
   \<and> increasingByOne (map step [exampleStep 1, exampleStep 2])
   \<and> step (exampleStep 3) = step (last [exampleStep 1, exampleStep 2]) + 1
   \<and> addStep [exampleStep 1, exampleStep 2] (exampleStep 3)
        = [exampleStep 1, exampleStep 2, exampleStep 3]
   \<and> increasingByOne (map step (addStep [exampleStep 1, exampleStep 2] (exampleStep 3)))"
  using step_indices_never_repeat [of "[exampleStep 1, exampleStep 2]"
      "[exampleStep 2, exampleStep 3, exampleStep 1]" "exampleStep 3" exampleDetail]
    step_indices_never_repeat [of "[exampleStep 1, exampleStep 2]" "[]" "exampleStep 2" exampleDetail]
  by (simp add: exampleStep_def addStep_def)

section \<open>Token, step and done events\<close>

lemma pushItem_fields [simp]:
  "streamingThinking (pushItem i st) = streamingThinking st"
  "streamingAction (pushItem i st) = streamingAction st"
  "currentStreamStepRef (pushItem i st) = currentStreamStepRef st"
  "isExecuting (pushItem i st) = isExecuting st"
  "pendingCommand (pushItem i st) = pendingCommand st"
  "sensitiveAction (pushItem i st) = sensitiveAction st"
  "requests (pushItem i st) = requests st"
  "timeouts (pushItem i st) = timeouts st"
  "input (pushItem i st) = input st"
  "chatItems (pushItem i st) = chatItems st @ [i]"
  by (simp_all add: pushItem_def)

lemma clearStream_fields [simp]:
  "streamingThinking (clearStream st) = []"
  "streamingAction (clearStream st) = []"
  "currentStreamStepRef (clearStream st) = 0"
  "isExecuting (clearStream st) = isExecuting st"
  "pendingCommand (clearStream st) = pendingCommand st"
  "sensitiveAction (clearStream st) = sensitiveAction st"
  "requests (clearStream st) = requests st"
  "timeouts (clearStream st) = timeouts st"
  "input (clearStream st) = input st"
  "chatItems (clearStream st) = chatItems st"
  by (simp_all add: clearStream_def)

lemma executeStream_fields [simp]:
  "streamingThinking (executeStream c st) = []"
  "streamingAction (executeStream c st) = []"
  "currentStreamStepRef (executeStream c st) = 0"
  "isExecuting (executeStream c st) = isExecuting st"
  "pendingCommand (executeStream c st) = pendingCommand st"
  "sensitiveAction (executeStream c st) = sensitiveAction st"
  "requests (executeStream c st) = requests st @ [c]"
  "timeouts (executeStream c st) = timeouts st"
  "input (executeStream c st) = input st"
  "chatItems (executeStream c st) = chatItems st"
  by (simp_all add: executeStream_def)

lemma event_names_differ:
  "js ''done'' \<noteq> js ''token''" "js ''done'' \<noteq> js ''start''" "js ''done'' \<noteq> js ''step''"
  "js ''done'' \<noteq> js ''sensitive''" "js ''done'' \<noteq> js ''takeover''"
  "js ''step'' \<noteq> js ''token''" "js ''step'' \<noteq> js ''start''"
  "js ''thinking'' \<noteq> js ''action''"
  by (simp_all add: js_def)

text \<open>
  C2. A \<open>token\<close> event (in the debug console: the last \<open>event:\<close> line said \<open>token\<close>, or
  the payload's type is \<open>token\<close>) whose step differs from the current streaming step
  resets both buffers before its content is appended, and makes its step the current one;
  otherwise the content is appended to the thinking buffer when the phase is
  \<open>thinking\<close> and to the action buffer when it is \<open>action\<close>. Both consumers: \<open>handleData\<close> of
  the debug console and \<open>tokenListener\<close> of the execution page.
\<close>

theorem token_event_buffers:
  assumes "eventType = js ''token'' \<or> d_type d = js ''token''"
  shows "fst (handleData command now eventType d st) = Continue
    \<and> streamingThinking (snd (handleData command now eventType d st)) =
        (if d_step d \<noteq> currentStreamStepRef st then [] else streamingThinking st)
          @ (if d_phase d = js ''thinking'' then d_content d else [])
    \<and> streamingAction (snd (handleData command now eventType d st)) =
        (if d_step d \<noteq> currentStreamStepRef st then [] else streamingAction st)
          @ (if d_phase d = js ''action'' then d_content d else [])
    \<and> currentStreamStepRef (snd (handleData command now eventType d st)) = d_step d
    \<and> streamingThinking (tokenListener token ds) =
        (if tok_step token \<noteq> currentStep ds then [] else streamingThinking ds)
          @ (if tok_phase token = js ''thinking'' then tok_content token else [])
    \<and> streamingAction (tokenListener token ds) =
        (if tok_step token \<noteq> currentStep ds then [] else streamingAction ds)
          @ (if tok_phase token = js ''action'' then tok_content token else [])
    \<and> currentStep (tokenListener token ds) = tok_step token"
  using assms event_names_differ(8)
  by (auto simp: handleData_def tokenListener_def Let_def)

theorem token_event_buffers_witness:
  "streamingThinking (snd (handleData [] 0 (js ''token'') (exampleData (js ''token'')) exampleDebug))
     = js ''c''
   \<and> streamingAction (snd (handleData [] 0 (js ''token'') (exampleData (js ''token'')) exampleDebug))
     = []
   \<and> streamingThinking (snd (handleData [] 0 [] (exampleData (js ''token''))
        (exampleDebug\<lparr>currentStreamStepRef := 2\<rparr>))) = js ''ac''
   \<and> streamingThinking
        (tokenListener \<lparr>tok_step = 1, tok_phase = js ''action'', tok_content = js ''c''\<rparr> exampleDetail)
     = js ''a''
   \<and> streamingAction
        (tokenListener \<lparr>tok_step = 1, tok_phase = js ''action'', tok_content = js ''c''\<rparr> exampleDetail)
     = js ''bc''"
  using token_event_buffers [of "js ''token''" "exampleData (js ''token'')" "[]" 0 exampleDebug
      "\<lparr>tok_step = 1, tok_phase = js ''action'', tok_content = js ''c''\<rparr>" exampleDetail]
    token_event_buffers [of "[]" "exampleData (js ''token'')" "[]" 0
      "exampleDebug\<lparr>currentStreamStepRef := 2\<rparr>"]
  by (simp add: exampleData_def exampleDebug_def exampleDetail_def js_def)

lemma trim_event_names:
  "trim (js ''step'') = js ''step''" "trim (js ''done'') = js ''done''"
  by code_simp+

text \<open>
  C3, as stated, fails in the debug console. The event type is a variable of the reading
  loop that only an \<open>event:\<close> line writes, and the token branch is taken whenever it says
  \<open>token\<close>. A payload of type \<open>step\<close> that is read while it still says so (here: right
  after a token payload, with no \<open>event:\<close> line of its own) is handled as a token: its
  content is appended to the thinking buffer, and no chat item is pushed.
\<close>

theorem step_read_as_token_counterexample:
  "d_type (exampleData (js ''step'')) = js ''step''
   \<and> streamingThinking (snd (processLines (js ''open the app'') 0
        [EventLine (js ''token''), DataLine (Some (exampleData (js ''token''))),
         DataLine (Some (exampleData (js ''step'')))] [] exampleDebug)) = js ''cc''
   \<and> chatItems (snd (processLines (js ''open the app'') 0
        [EventLine (js ''token''), DataLine (Some (exampleData (js ''token''))),
         DataLine (Some (exampleData (js ''step'')))] [] exampleDebug)) = []"
  by code_simp

text \<open>
  C3, amended. A \<open>step\<close> event that the consumer handles as one leaves both in-flight
  buffers empty. On the execution page that is every \<open>step\<close> event. In the debug console
  it is every payload of type \<open>step\<close> read while the event type is not \<open>token\<close>; in
  particular every such payload that comes right after an \<open>event:\<close> line of its own that
  names anything but \<open>token\<close>, whatever the event type was before that line.
\<close>

theorem step_event_clears_buffers:
  assumes "d_type d = js ''step''" and "eventType \<noteq> js ''token''"
  shows "streamingThinking (snd (handleData command now eventType d st)) = []
    \<and> streamingAction (snd (handleData command now eventType d st)) = []
    \<and> (trim t = eventType \<longrightarrow>
         streamingThinking (snd (processLines command now [EventLine t, DataLine (Some d)] stale st)) = []
         \<and> streamingAction (snd (processLines command now [EventLine t, DataLine (Some d)] stale st)) = [])
    \<and> streamingThinking (stepListener new ds) = []
    \<and> streamingAction (stepListener new ds) = []"
proof -
  have h: "streamingThinking (snd (handleData command now eventType d st)) = []
    \<and> streamingAction (snd (handleData command now eventType d st)) = []
    \<and> fst (handleData command now eventType d st) = Continue"
    using assms event_names_differ by (simp add: handleData_def Let_def)
  have p: "snd (processLines command now [EventLine t, DataLine (Some d)] stale st)
      = snd (handleData command now eventType d st)" if "trim t = eventType"
    using h that by (cases "handleData command now eventType d st") simp
  show ?thesis using h p by (simp add: stepListener_def)
qed

theorem step_event_clears_buffers_witness:
  "streamingThinking exampleDebug = js ''a''
   \<and> streamingThinking (snd (handleData [] 0 (js ''step'') (exampleData (js ''step'')) exampleDebug)) = []
   \<and> streamingAction (snd (handleData [] 0 (js ''step'') (exampleData (js ''step'')) exampleDebug)) = []
   \<and> streamingThinking (snd (processLines [] 0
        [EventLine (js ''step''), DataLine (Some (exampleData (js ''step'')))] (js ''token'') exampleDebug)) = []
   \<and> streamingThinking (stepListener (exampleStep 2) exampleDetail) = []
   \<and> streamingAction (stepListener (exampleStep 2) exampleDetail) = []"
proof -
  have a: "d_type (exampleData (js ''step'')) = js ''step''" by (simp add: exampleData_def)
  have b: "js ''step'' \<noteq> js ''token''" by (simp add: js_def)
  from step_event_clears_buffers [OF a b, of "[]" 0 exampleDebug "js ''step''" "js ''token''"
      "exampleStep 2" exampleDetail] trim_event_names(1)
  show ?thesis by (simp add: exampleDebug_def)
qed

text \<open>
  C4, as stated, fails for the same reason: a \<open>done\<close> payload with \<open>paused = true\<close> and
  pause reason \<open>sensitive\<close> that is read while the event type still says \<open>token\<close> is
  handled as a token. The loop goes on reading, the console stays executing and no pending
  command is kept.
\<close>

theorem done_read_as_token_counterexample:
  "d_type (exampleData (js ''done'')) = js ''done''
   \<and> d_paused (exampleData (js ''done''))
   \<and> d_pauseReason (exampleData (js ''done'')) = Some (js ''sensitive'')
   \<and> fst (processLines (js ''pay now'') 0
        [EventLine (js ''token''), DataLine (Some (exampleData (js ''token''))),
         DataLine (Some (exampleData (js ''done'')))] [] exampleDebug) = Continue
   \<and> isExecuting (snd (processLines (js ''pay now'') 0
        [EventLine (js ''token''), DataLine (Some (exampleData (js ''token''))),
         DataLine (Some (exampleData (js ''done'')))] [] exampleDebug))
   \<and> pendingCommand (snd (processLines (js ''pay now'') 0
        [EventLine (js ''token''), DataLine (Some (exampleData (js ''token''))),
         DataLine (Some (exampleData (js ''done'')))] [] exampleDebug)) = None"
  by code_simp

text \<open>
  C4, amended. A \<open>done\<close> payload with \<open>paused = true\<close> that is read in the debug console
  while the event type is not \<open>token\<close> (in particular right after an \<open>event:\<close> line of
  its own that names anything but \<open>token\<close>): the function returns, so no later line of the
  stream is read; no chat item is pushed or scheduled, and nothing is posted; the console
  stops executing; and the pending command becomes the command of this stream exactly
  when the pause reason is \<open>sensitive\<close> (it is left as it was otherwise).
\<close>

theorem done_paused_ends_segment:
  assumes "d_type d = js ''done''" and "d_paused d" and "eventType \<noteq> js ''token''"
  shows "processLines command now (DataLine (Some d) # rest) eventType st =
           (Return, snd (handleData command now eventType d st))
    \<and> (trim t = eventType \<longrightarrow>
         processLines command now (EventLine t # DataLine (Some d) # rest) stale st =
           (Return, snd (handleData command now eventType d st)))
    \<and> chatItems (snd (handleData command now eventType d st)) = chatItems st
    \<and> timeouts (snd (handleData command now eventType d st)) = timeouts st
    \<and> requests (snd (handleData command now eventType d st)) = requests st
    \<and> isExecuting (snd (handleData command now eventType d st)) = False
    \<and> pendingCommand (snd (handleData command now eventType d st)) =
        (if d_pauseReason d = Some (js ''sensitive'') then Some command else pendingCommand st)"
  using assms event_names_differ
  by (simp add: handleData_def Let_def)

theorem done_paused_ends_segment_witness:
  "d_paused (exampleData (js ''done''))
   \<and> fst (processLines (js ''pay now'') 0
        [DataLine (Some (exampleData (js ''done''))), DataLine (Some (exampleData (js ''step'')))]
        (js ''done'') exampleDebug) = Return
   \<and> fst (processLines (js ''pay now'') 0
        [EventLine (js ''done''), DataLine (Some (exampleData (js ''done''))),
         DataLine (Some (exampleData (js ''step'')))]
        (js ''token'') exampleDebug) = Return
   \<and> chatItems (snd (handleData (js ''pay now'') 0 (js ''done'') (exampleData (js ''done'')) exampleDebug))
      = []
   \<and> pendingCommand (snd (handleData (js ''pay now'') 0 (js ''done'') (exampleData (js ''done'')) exampleDebug))
      = Some (js ''pay now'')
   \<and> pendingCommand (snd (handleData (js ''pay now'') 0 (js ''done'')
        ((exampleData (js ''done''))\<lparr>d_pauseReason := Some (js ''takeover'')\<rparr>) exampleDebug)) = None"
proof -
  have a: "d_type (exampleData (js ''done'')) = js ''done''"
    "d_type ((exampleData (js ''done''))\<lparr>d_pauseReason := Some (js ''takeover'')\<rparr>) = js ''done''"
    by (simp_all add: exampleData_def)
  have p: "d_paused (exampleData (js ''done''))"
    "d_paused ((exampleData (js ''done''))\<lparr>d_pauseReason := Some (js ''takeover'')\<rparr>)"
    by (simp_all add: exampleData_def)
  have b: "js ''done'' \<noteq> js ''token''" by (simp add: js_def)
  from done_paused_ends_segment [OF a(1) p(1) b, of "js ''pay now''" 0
      "[DataLine (Some (exampleData (js ''step'')))]" exampleDebug "js ''done''" "js ''token''"]
    done_paused_ends_segment [OF a(2) p(2) b, of "js ''pay now''" 0 "[]" exampleDebug]
    trim_event_names(2) p(1)
  show ?thesis by (simp add: exampleData_def exampleDebug_def js_def)
qed

text \<open>
  C5. With a pending command (any non-empty command: \<open>handleSend\<close> posts trimmed non-empty
  input only), confirming posts one new stream whose command is the fixed
  \<open>continueCommand\<close>, whatever the pending command was, sets the console executing and
  clears the pending command and the dialog; cancelling clears the pending command and the
  dialog and posts nothing.
\<close>

theorem confirm_resumes_with_fixed_command:
  assumes "pendingCommand st = Some c" and "c \<noteq> []"
  shows "requests (handleConfirmSensitive now st) = requests st @ [continueCommand]
    \<and> continueCommand = [32487, 32493, 25191, 34892]
    \<and> isExecuting (handleConfirmSensitive now st)
    \<and> pendingCommand (handleConfirmSensitive now st) = None
    \<and> sensitiveAction (handleConfirmSensitive now st) = None
    \<and> requests (handleCancelSensitive now st) = requests st
    \<and> pendingCommand (handleCancelSensitive now st) = None
    \<and> sensitiveAction (handleCancelSensitive now st) = None
    \<and> isExecuting (handleCancelSensitive now st) = isExecuting st"
  using assms
  by (simp add: handleConfirmSensitive_def handleCancelSensitive_def Let_def continueCommand_def)

theorem confirm_resumes_with_fixed_command_witness:
  "requests (handleConfirmSensitive 0 (exampleDebug\<lparr>pendingCommand := Some (js ''pay now'')\<rparr>))
     = [js ''open the app'', [32487, 32493, 25191, 34892]]
   \<and> isExecuting (handleConfirmSensitive 0
        (exampleDebug\<lparr>pendingCommand := Some (js ''pay now''), isExecuting := False\<rparr>))
   \<and> requests (handleCancelSensitive 0 (exampleDebug\<lparr>pendingCommand := Some (js ''pay now'')\<rparr>))
     = [js ''open the app'']"
  using confirm_resumes_with_fixed_command [of "exampleDebug\<lparr>pendingCommand := Some (js ''pay now'')\<rparr>"
      "js ''pay now''" 0]
    confirm_resumes_with_fixed_command [of
      "exampleDebug\<lparr>pendingCommand := Some (js ''pay now''), isExecuting := False\<rparr>"
      "js ''pay now''" 0]
  by (simp add: exampleDebug_def js_def)

section \<open>The parser consumes its input\<close>

text \<open>
  Every successful call of the lexers and of the three parsing functions returns a rest
  that is strictly shorter than its input. Hence the length comparisons written in
  \<open>parseElements\<close> and \<open>parseMembers\<close> never reject anything: both functions satisfy
  the equations without them.
\<close>

lemma parseStringBody_shorter:
  "parseStringBody cs acc = Some (str, r) \<Longrightarrow> length r < length cs"
proof (induction cs acc arbitrary: str r rule: parseStringBody.induct)
  case (1 acc)
  then show ?case by simp
next
  case (2 c cs acc)
  show ?case
  proof (cases "c = 34")
    case True
    with "2.prems" show ?thesis by simp
  next
    case n34: False
    show ?thesis
    proof (cases "c = 92")
      case False
      with n34 "2.prems" have "\<not> c < 32" and "parseStringBody cs (acc @ [c]) = Some (str, r)"
        by (auto split: if_splits)
      with "2.IH"(3) [OF n34 False] show ?thesis by fastforce
    next
      case True
      with "2.prems" obtain e es where cs: "cs = e # es"
        by (cases cs) auto
      show ?thesis
      proof (cases "e = 117")
        case False
        with True cs "2.prems" obtain u where u: "unescape e = Some u"
          and rec: "parseStringBody es (acc @ [u]) = Some (str, r)"
          by (auto split: option.splits)
        from "2.IH"(2) [OF n34 True cs False u rec] cs show ?thesis by simp
      next
        case e: True
        with True cs "2.prems" obtain h1 h2 h3 h4 r' a b c' d where es: "es = h1 # h2 # h3 # h4 # r'"
          and hx: "hexVal h1 = Some a" "hexVal h2 = Some b" "hexVal h3 = Some c'" "hexVal h4 = Some d"
          and rec: "parseStringBody r' (acc @ [((a * 16 + b) * 16 + c') * 16 + d]) = Some (str, r)"
          by (auto split: list.splits option.splits)
        from "2.IH"(1) [OF n34 True cs e es refl refl refl refl hx(1) refl hx(2) refl hx(3) hx(4) rec]
          cs es show ?thesis
          by simp
      qed
    qed
  qed
qed

lemma matchLit_length: "matchLit p s = Some r \<Longrightarrow> length s = length p + length r"
  by (induction p s rule: matchLit.induct) (auto split: if_splits)

lemma parseNumber_shorter:
  assumes "parseNumber s = Some (n, r)"
  shows "length r < length s"
proof -
  define neg where "neg = (s \<noteq> [] \<and> hd s = 45)"
  define s1 where "s1 = (if neg then tl s else s)"
  define ip where "ip = (if s1 \<noteq> [] \<and> hd s1 = 48 then [48] else takeWhile isDigit s1)"
  define s2 where "s2 = drop (length ip) s1"
  define hasFrac where "hasFrac = (s2 \<noteq> [] \<and> hd s2 = 46)"
  define fp where "fp = (if hasFrac then takeWhile isDigit (tl s2) else [])"
  define s3 where "s3 = (if hasFrac then drop (length fp) (tl s2) else s2)"
  define hasExp where "hasExp = (s3 \<noteq> [] \<and> (hd s3 = 101 \<or> hd s3 = 69))"
  define s4 where "s4 = (if hasExp then tl s3 else s3)"
  define eneg where "eneg = (hasExp \<and> s4 \<noteq> [] \<and> hd s4 = 45)"
  define s5 where "s5 = (if hasExp \<and> s4 \<noteq> [] \<and> (hd s4 = 45 \<or> hd s4 = 43) then tl s4 else s4)"
  define ep where "ep = (if hasExp then takeWhile isDigit s5 else [])"
  define s6 where "s6 = (if hasExp then drop (length ep) s5 else s3)"
  define mant :: rat where "mant = of_int (digitsVal ip) + of_int (digitsVal fp) / 10 ^ length fp"
  define scaled where "scaled = (if eneg then mant / 10 ^ nat (digitsVal ep)
                                else mant * 10 ^ nat (digitsVal ep))"
  have pn: "parseNumber s =
     (if ip = [] then None
      else if hasFrac \<and> fp = [] then None
      else if hasExp \<and> ep = [] then None
      else Some (if neg then - scaled else scaled, s6))"
    unfolding parseNumber_def Let_def scaled_def mant_def s6_def ep_def s5_def eneg_def s4_def
      hasExp_def s3_def fp_def hasFrac_def s2_def ip_def s1_def neg_def
    by (rule refl)
  from assms have ipne: "ip \<noteq> []" and r: "r = s6"
    unfolding pn by (auto split: if_splits)
  have l1: "length s1 \<le> length s" by (simp add: s1_def)
  have "length ip \<le> length s1"
    unfolding ip_def by (cases s1) (auto simp: length_takeWhile_le)
  with ipne have l2: "length s2 < length s1" by (cases ip) (simp_all add: s2_def)
  have l3: "length s3 \<le> length s2" by (simp add: s3_def)
  have "length s5 \<le> length s4" by (simp add: s5_def)
  moreover have "length s4 \<le> length s3" by (simp add: s4_def)
  ultimately have "length s6 \<le> length s3" by (auto simp: s6_def)
  with l1 l2 l3 r show ?thesis by simp
qed

lemma skipWs_Cons_shorter: "skipWs s = c # cs \<Longrightarrow> length cs < length s"
  using length_skipWs [of s] by simp

lemma parse_shorter:
  "(parseValue s = Some (v, r) \<longrightarrow> length r < length s)"
  "(parseElements s1 acc1 = Some (vs, r1) \<longrightarrow> length r1 < length s1)"
  "(parseMembers s2 acc2 = Some (ms, r2) \<longrightarrow> length r2 < length s2)"
proof (induction s and s1 acc1 and s2 acc2 arbitrary: v r and vs r1 and ms r2
    rule: parseValue_parseElements_parseMembers.induct)
  case (1 s)
  show ?case
  proof
    assume pv: "parseValue s = Some (v, r)"
    then obtain c cs where sk: "skipWs s = c # cs"
      by (subst (asm) parseValue.simps) (auto split: list.splits)
    note lcs = skipWs_Cons_shorter [OF sk]
    have len: "length (c # cs) \<le> length s"
      using length_skipWs [of s] sk by simp
    have eq: "parseValue s =
      (if c = 123 then
            (case skipWs cs of
               [] \<Rightarrow> None
             | d # ds \<Rightarrow>
                 if d = 125 then Some (JObj [], ds)
                 else (case parseMembers (d # ds) [] of
                         None \<Rightarrow> None
                       | Some (ms, r) \<Rightarrow> Some (JObj ms, r)))
          else if c = 91 then
            (case skipWs cs of
               [] \<Rightarrow> None
             | d # ds \<Rightarrow>
                 if d = 93 then Some (JArr [], ds)
                 else (case parseElements (d # ds) [] of
                         None \<Rightarrow> None
                       | Some (es, r) \<Rightarrow> Some (JArr es, r)))
          else if c = 34 then
            (case parseStringBody cs [] of
               None \<Rightarrow> None
             | Some (str, r) \<Rightarrow> Some (JStr str, r))
          else
            (case matchLit (js ''true'') (c # cs) of
               Some r \<Rightarrow> Some (JBool True, r)
             | None \<Rightarrow>
            (case matchLit (js ''false'') (c # cs) of
               Some r \<Rightarrow> Some (JBool False, r)
             | None \<Rightarrow>
            (case matchLit (js ''null'') (c # cs) of
               Some r \<Rightarrow> Some (JNull, r)
             | None \<Rightarrow>
            (case parseNumber (c # cs) of
               Some (n, r) \<Rightarrow> Some (JNum n, r)
             | None \<Rightarrow> None)))))"
      by (subst parseValue.simps) (simp add: sk)
    show "length r < length s"
    proof (cases "c = 123")
      case True
      with pv eq obtain d ds where sk2: "skipWs cs = d # ds"
        by (auto split: list.splits)
      note lds = skipWs_Cons_shorter [OF sk2]
      show ?thesis
      proof (cases "d = 125")
        case d: True
        with pv eq True sk2 have "r = ds" by simp
        with lds lcs show ?thesis by simp
      next
        case d: False
        with pv eq True sk2 obtain ms where "parseMembers (d # ds) [] = Some (ms, r)"
          by (auto split: option.splits)
        with "1.IH"(1) [OF sk True sk2 d] have "length r < length (d # ds)" by simp
        with lds lcs show ?thesis by simp
      qed
    next
      case n123: False
      show ?thesis
      proof (cases "c = 91")
        case True
        with pv eq n123 obtain d ds where sk2: "skipWs cs = d # ds"
          by (auto split: list.splits)
        note lds = skipWs_Cons_shorter [OF sk2]
        show ?thesis
        proof (cases "d = 93")
          case d: True
          with pv eq n123 True sk2 have "r = ds" by simp
          with lds lcs show ?thesis by simp
        next
          case d: False
          with pv eq n123 True sk2 obtain es where "parseElements (d # ds) [] = Some (es, r)"
            by (auto split: option.splits)
          with "1.IH"(2) [OF sk n123 True sk2 d] have "length r < length (d # ds)" by simp
          with lds lcs show ?thesis by simp
        qed
      next
        case n91: False
        show ?thesis
        proof (cases "c = 34")
          case True
          with pv eq n123 n91 obtain str where "parseStringBody cs [] = Some (str, r)"
            by (auto split: option.splits)
          from parseStringBody_shorter [OF this] lcs show ?thesis by simp
        next
          case False
          with pv eq n123 n91 consider
              (t) "matchLit (js ''true'') (c # cs) = Some r"
            | (f) "matchLit (js ''false'') (c # cs) = Some r"
            | (n) "matchLit (js ''null'') (c # cs) = Some r"
            | (num) n where "parseNumber (c # cs) = Some (n, r)"
            by (auto split: option.splits)
          then have "length r < length (c # cs)"
          proof cases
            case t
            from matchLit_length [OF this] show ?thesis by (simp add: js_def)
          next
            case f
            from matchLit_length [OF this] show ?thesis by (simp add: js_def)
          next
            case n
            from matchLit_length [OF this] show ?thesis by (simp add: js_def)
          next
            case num
            from parseNumber_shorter [OF this] show ?thesis .
          qed
          with len show ?thesis by simp
        qed
      qed
    qed
  qed
next
  case (2 s acc)
  show ?case
  proof
    assume pe: "parseElements s acc = Some (vs, r1)"
    then obtain v r where pv: "parseValue s = Some (v, r)"
      by (subst (asm) parseElements.simps) (auto split: option.splits)
    from "2.IH"(1) pv have lr: "length r < length s" by simp
    from pe pv obtain c cs where sk: "skipWs r = c # cs"
      by (subst (asm) parseElements.simps) (auto split: list.splits)
    note lcs = skipWs_Cons_shorter [OF sk]
    have eq: "parseElements s acc =
      (if c = 93 then Some (acc @ [v], cs)
       else if c = 44 \<and> length cs < length s then parseElements cs (acc @ [v])
       else None)"
      by (subst parseElements.simps) (simp add: pv sk)
    show "length r1 < length s"
    proof (cases "c = 93")
      case True
      with pe eq have "r1 = cs" by simp
      with lcs lr show ?thesis by simp
    next
      case False
      with pe eq have g: "c = 44 \<and> length cs < length s"
        and rec: "parseElements cs (acc @ [v]) = Some (vs, r1)"
        by (auto split: if_splits)
      from "2.IH"(2) [OF pv refl sk False g] rec have "length r1 < length cs" by simp
      with lcs lr show ?thesis by simp
    qed
  qed
next
  case (3 s acc)
  show ?case
  proof
    assume pm: "parseMembers s acc = Some (ms, r2)"
    then obtain q cs where sk: "skipWs s = q # cs"
      by (subst (asm) parseMembers.simps) (auto split: list.splits)
    note lcs = skipWs_Cons_shorter [OF sk]
    from pm sk have q: "\<not> q \<noteq> 34"
      by (subst (asm) parseMembers.simps) (auto split: if_splits)
    from pm sk q obtain ky r where ps: "parseStringBody cs [] = Some (ky, r)"
      by (subst (asm) parseMembers.simps) (auto split: option.splits)
    note lr = parseStringBody_shorter [OF ps]
    from pm sk q ps obtain col r1 where sk1: "skipWs r = col # r1"
      by (subst (asm) parseMembers.simps) (auto split: list.splits)
    note lr1 = skipWs_Cons_shorter [OF sk1]
    from pm sk q ps sk1 have g: "col = 58 \<and> length r1 < length s"
      by (subst (asm) parseMembers.simps) (auto split: if_splits)
    from pm sk q ps sk1 g obtain v r2' where pv: "parseValue r1 = Some (v, r2')"
      by (subst (asm) parseMembers.simps) (auto split: option.splits)
    from "3.IH"(1) [OF sk q ps refl sk1 g] pv have lr2: "length r2' < length r1" by simp
    from pm sk q ps sk1 g pv obtain e r3 where sk3: "skipWs r2' = e # r3"
      by (subst (asm) parseMembers.simps) (auto split: list.splits)
    note lr3 = skipWs_Cons_shorter [OF sk3]
    have eq: "parseMembers s acc =
      (if e = 125 then Some (obj_set acc ky v, r3)
       else if e = 44 \<and> length r3 < length s then parseMembers r3 (obj_set acc ky v)
       else None)"
      using q g by (subst parseMembers.simps) (simp add: sk ps sk1 pv sk3)
    show "length r2 < length s"
    proof (cases "e = 125")
      case True
      with pm eq have "r2 = r3" by simp
      with lr3 lr2 g show ?thesis by simp
    next
      case False
      with pm eq have g2: "e = 44 \<and> length r3 < length s"
        and rec: "parseMembers r3 (obj_set acc ky v) = Some (ms, r2)"
        by (auto split: if_splits)
      from "3.IH"(2) [OF sk q ps refl sk1 g pv refl sk3 False g2] rec
      have "length r2 < length r3" by simp
      with g2 show ?thesis by simp
    qed
  qed
qed

lemma parseElements_unguarded:
  "parseElements s acc =
     (case parseValue s of
        None \<Rightarrow> None
      | Some (v, r) \<Rightarrow>
          (case skipWs r of
             [] \<Rightarrow> None
           | c # cs \<Rightarrow>
               if c = 93 then Some (acc @ [v], cs)
               else if c = 44 then parseElements cs (acc @ [v])
               else None))"
proof (cases "parseValue s")
  case None
  then show ?thesis by (subst parseElements.simps) simp
next
  case (Some p)
  obtain v r where p: "p = (v, r)" by (cases p)
  from parse_shorter(1) Some p have lr: "length r < length s" by simp
  show ?thesis
  proof (cases "skipWs r")
    case Nil
    with Some p show ?thesis by (subst parseElements.simps) simp
  next
    case (Cons c cs)
    from skipWs_Cons_shorter [OF Cons] lr have "length cs < length s" by simp
    with Some p Cons show ?thesis by (subst parseElements.simps) simp
  qed
qed

lemma parseMembers_unguarded:
  "parseMembers s acc =
     (case skipWs s of
        [] \<Rightarrow> None
      | q # cs \<Rightarrow>
          if q \<noteq> 34 then None
          else
            (case parseStringBody cs [] of
               None \<Rightarrow> None
             | Some (ky, r) \<Rightarrow>
                 (case skipWs r of
                    [] \<Rightarrow> None
                  | col # r1 \<Rightarrow>
                      if col = 58 then
                        (case parseValue r1 of
                           None \<Rightarrow> None
                         | Some (v, r2) \<Rightarrow>
                             (case skipWs r2 of
                                [] \<Rightarrow> None
                              | e # r3 \<Rightarrow>
                                  if e = 125 then Some (obj_set acc ky v, r3)
                                  else if e = 44 then parseMembers r3 (obj_set acc ky v)
                                  else None))
                      else None)))"
proof -
  have g1: "length r1 < length s"
    if "skipWs s = q # cs" "parseStringBody cs [] = Some (ky, r)" "skipWs r = col # r1"
    for q cs ky r col r1
    using skipWs_Cons_shorter [OF that(1)] parseStringBody_shorter [OF that(2)]
      skipWs_Cons_shorter [OF that(3)] by simp
  have g2: "length r3 < length r1"
    if "parseValue r1 = Some (v, r2)" "skipWs r2 = e # r3" for r1 v r2 e r3
    using parse_shorter(1) [of r1 v r2] that(1) skipWs_Cons_shorter [OF that(2)] by simp
  show ?thesis
    apply (subst parseMembers.simps)
    apply (auto split: list.splits option.splits dest: g1 g2)
    using g1 g2 apply fastforce+
    done
qed

section \<open>What \<open>parseActionToObject\<close> returns\<close>

lemma parseActionToObject_falsy: "\<not> truthy a \<Longrightarrow> parseActionToObject a = JNull"
  by (simp add: parseActionToObject_def)

lemma parseValue_brace:
  assumes "parseValue (123 # cs) = Some (v, r)"
  shows "\<exists>fs. v = JObj fs"
proof -
  have sk: "skipWs (123 # cs) = 123 # cs" by (simp add: skipWs_def isJsonWs_def)
  have "parseValue (123 # cs) =
          (case skipWs cs of
             [] \<Rightarrow> None
           | d # ds \<Rightarrow>
               if d = 125 then Some (JObj [], ds)
               else (case parseMembers (d # ds) [] of
                       None \<Rightarrow> None
                     | Some (ms, r) \<Rightarrow> Some (JObj ms, r)))"
    by (subst parseValue.simps) (simp add: sk)
  with assms show ?thesis
    by (auto split: list.splits option.splits if_splits)
qed

lemma JSON_parse_brace: "JSON_parse (123 # cs) = Some v \<Longrightarrow> \<exists>fs. v = JObj fs"
  by (auto simp: JSON_parse_def split: option.splits if_splits dest: parseValue_brace)

lemma jsonAt_brace: "jsonAt s = Some m \<Longrightarrow> \<exists>cs. m = 123 # cs"
  by (auto simp: jsonAt_def split: list.splits option.splits if_splits)

lemma jsonMatch_brace:
  assumes "jsonMatch s = Some m"
  shows "\<exists>cs. m = 123 # cs"
proof -
  from assms obtain pre where "firstMatch jsonAt s = Some (pre, m)"
    by (auto simp: jsonMatch_def split: option.splits)
  from firstMatch_length [OF this] have "jsonAt (drop (length pre) s) = Some m" by simp
  then show ?thesis by (rule jsonAt_brace)
qed

lemma parseActionToObject_result:
  "parseActionToObject a = JNull \<or> (\<exists>fs. parseActionToObject a = JObj fs)
     \<or> (\<exists>vs. parseActionToObject a = JArr vs)"
proof (cases a)
  case (JStr s)
  show ?thesis
  proof (cases "jsonMatch (trim s)")
    case None
    with JStr show ?thesis
      by (auto simp: parseActionToObject_def Let_def split: option.splits)
  next
    case (Some m)
    then obtain cs where "m = 123 # cs" using jsonMatch_brace by blast
    with JStr Some show ?thesis
      by (auto simp: parseActionToObject_def Let_def split: option.splits dest: JSON_parse_brace)
  qed
qed (simp_all add: parseActionToObject_def)

lemma truthy_parseActionToObject:
  "truthy (parseActionToObject a) \<longleftrightarrow> parseActionToObject a \<noteq> JNull"
  using parseActionToObject_result [of a] by auto

section \<open>The patterns of the legacy description on tagged text\<close>

lemma firstMatch_head: "m s = Some r \<Longrightarrow> firstMatch m s = Some ([], r)"
  by (cases s) simp_all

lemma firstMatch_append_fail:
  assumes "\<And>i. i < length a \<Longrightarrow> m (drop i a @ b) = None"
  shows "firstMatch m (a @ b) = map_option (\<lambda>(p, r). (a @ p, r)) (firstMatch m b)"
  using assms
proof (induction a)
  case Nil
  show ?case by (simp add: option.map_ident case_prod_unfold)
next
  case (Cons c a)
  have head: "m (c # a @ b) = None" using Cons.prems [of 0] by simp
  have "\<And>i. i < length a \<Longrightarrow> m (drop i a @ b) = None"
    using Cons.prems [of "Suc i" for i] by simp
  from Cons.IH [OF this] head show ?case
    by (auto split: option.splits)
qed

lemma firstMatch_skip:
  assumes "\<And>i. i < length pre \<Longrightarrow> m (drop i pre @ s) = None" and "m s = Some r"
  shows "firstMatch m (pre @ s) = Some (pre, r)"
proof -
  have "firstMatch m (pre @ s) = map_option (\<lambda>(p, r). (pre @ p, r)) (firstMatch m s)"
    by (rule firstMatch_append_fail) (rule assms(1))
  moreover have "firstMatch m s = Some ([], r)"
    using assms(2) by (rule firstMatch_head)
  ultimately show ?thesis by simp
qed

lemma asciiUpper_lt [simp]: "asciiUpper c = asciiUpper 60 \<longleftrightarrow> c = 60"
  by (auto simp: asciiUpper_def)

lemma drop_head:
  assumes "i < length pre" and "x \<notin> set pre"
  shows "\<exists>c cs. drop i pre @ s = c # cs \<and> c \<noteq> x"
proof -
  from assms(1) have "drop i pre = pre ! i # drop (Suc i) pre" by (simp add: Cons_nth_drop_Suc)
  moreover from assms have "pre ! i \<noteq> x" by (metis nth_mem)
  ultimately show ?thesis by simp
qed










lemma parseStepData_legacy:
  assumes "\<not> truthyStr (thinking st)" and "parseActionToObject (action st) = JNull"
  shows "parseStepData st =
           (if \<not> truthyStr (description st) then (None, JNull)
            else (map_option trim (thinkMatch (the (description st))),
                  parseActionToObject (JStr
                    (case answerMatch (the (description st)) of
                       Some inner \<Rightarrow> trim inner
                     | None \<Rightarrow> trim (stripAnswerTags (stripThink (the (description st))))))))"
proof -
  have a0: "(if truthy (action st) then parseActionToObject (action st) else JNull) = JNull"
    using assms(2) by simp
  show ?thesis
    using assms(1) unfolding parseStepData_def a0 Let_def
    by (cases "description st") (auto split: option.splits)
qed

lemma parseStepData_legacy_Some:
  assumes "\<not> truthyStr (thinking st)" and "parseActionToObject (action st) = JNull"
    and "description st = Some d" and "d \<noteq> []"
  shows "parseStepData st =
           (map_option trim (thinkMatch d),
            parseActionToObject (JStr
              (case answerMatch d of
                 Some inner \<Rightarrow> trim inner
               | None \<Rightarrow> trim (stripAnswerTags (stripThink d)))))"
  using parseStepData_legacy [OF assms(1,2)] assms(3,4) by (simp split: option.splits)


text \<open>
  The patterns removed by \<open>stripThink\<close> and \<open>stripAnswerTags\<close> match at least one code
  unit, so the length comparison written in \<open>eraseAll\<close> never stops a replacement.
\<close>

lemma matchLitCI_length: "matchLitCI p s = Some r \<Longrightarrow> length s = length p + length r"
  by (induction p s rule: matchLitCI.induct) (auto split: if_splits)

lemma firstMatch_rest_shorter:
  assumes "firstMatch m s = Some (p, r)"
    and "\<And>t u. m t = Some u \<Longrightarrow> length (f u) < length t"
  shows "length (f r) < length s"
proof -
  from firstMatch_length [OF assms(1)]
  have "m (drop (length p) s) = Some r" by simp
  from assms(2) [OF this] show ?thesis by simp
qed

lemma tagEndAt_shorter: "tagEndAt r = Some u \<Longrightarrow> length u < length r"
  by (auto simp: tagEndAt_def js_def split: option.splits dest!: matchLitCI_length)

lemma thinkAt_shorter:
  assumes "thinkAt t = Some (inner, u)"
  shows "length u < length t"
proof -
  from assms obtain r where o: "thinkOpenAt t = Some r"
    and f: "firstMatch thinkCloseAt r = Some (inner, u)"
    by (auto simp: thinkAt_def split: option.splits)
  from o have "length r < length t"
    by (auto simp: thinkOpenAt_def split: option.splits
        dest!: matchLitCI_length tagEndAt_shorter)
  moreover have "length u < length r"
  proof (rule firstMatch_rest_shorter [where f = "\<lambda>x. x", OF f])
    fix t' u'
    assume "thinkCloseAt t' = Some u'"
    then show "length u' < length t'"
      by (auto simp: thinkCloseAt_def split: option.splits
          dest!: matchLitCI_length tagEndAt_shorter)
  qed
  ultimately show ?thesis by simp
qed

lemma answerTagAt_shorter: "answerTagAt t = Some u \<Longrightarrow> length u < length t"
  by (auto simp: answerTagAt_def js_def split: option.splits dest!: matchLitCI_length)

lemma eraseAll_unguarded:
  assumes "\<And>t u. m t = Some u \<Longrightarrow> length u < length t"
  shows "eraseAll m s =
     (case firstMatch m s of None \<Rightarrow> s | Some (p, rest) \<Rightarrow> p @ eraseAll m rest)"
proof (cases "firstMatch m s")
  case None
  then show ?thesis by (subst eraseAll.simps) simp
next
  case (Some a)
  obtain p rest where a: "a = (p, rest)" by (cases a)
  from firstMatch_rest_shorter [where f = "\<lambda>x. x", OF Some [unfolded a] assms]
  have "length rest < length s" by simp
  with Some a show ?thesis by (subst eraseAll.simps) simp
qed

lemma stripThink_unguarded:
  "stripThink d =
     (case firstMatch (\<lambda>s. map_option snd (thinkAt s)) d of
        None \<Rightarrow> d
      | Some (p, rest) \<Rightarrow> p @ stripThink rest)"
  unfolding stripThink_def
  by (rule eraseAll_unguarded) (auto dest: thinkAt_shorter)

lemma stripAnswerTags_unguarded:
  "stripAnswerTags d =
     (case firstMatch answerTagAt d of
        None \<Rightarrow> d
      | Some (p, rest) \<Rightarrow> p @ stripAnswerTags rest)"
  unfolding stripAnswerTags_def
  by (rule eraseAll_unguarded) (rule answerTagAt_shorter)

lemma eraseAll_no_match: "firstMatch m s = None \<Longrightarrow> eraseAll m s = s"
  by (subst eraseAll.simps) simp




lemma literal_nonempty: "js ''<think>'' @ x \<noteq> []"
  by (simp add: js_def)

section \<open>The function-call format\<close>

text \<open>
  Strings of the form \<open>Name(k1="v1", k2=123, ...)\<close>, written out: a value is a
  double-quoted string, a single-quoted string, a digit sequence or a bare word, a pair is
  \<open>key=value\<close>, the pairs are separated by a comma and a space.
\<close>

datatype argValue = DQuoted jsstring | SQuoted jsstring | Digits jsstring | Bare jsstring

fun renderValue :: "argValue \<Rightarrow> jsstring" where
  "renderValue (DQuoted c) = 34 # c @ [34]"
| "renderValue (SQuoted c) = 39 # c @ [39]"
| "renderValue (Digits ds) = ds"
| "renderValue (Bare w) = w"

fun valueOf :: "argValue \<Rightarrow> jsval" where
  "valueOf (DQuoted c) = JStr c"
| "valueOf (SQuoted c) = JStr c"
| "valueOf (Digits ds) = JNum (of_int (digitsVal ds))"
| "valueOf (Bare w) = JStr w"

definition wordName :: "jsstring \<Rightarrow> bool" where
  "wordName w \<longleftrightarrow> w \<noteq> [] \<and> list_all isWordChar w"

fun wellFormedValue :: "argValue \<Rightarrow> bool" where
  "wellFormedValue (DQuoted c) = (c \<noteq> [] \<and> 34 \<notin> set c)"
| "wellFormedValue (SQuoted c) = (c \<noteq> [] \<and> 39 \<notin> set c)"
| "wellFormedValue (Digits ds) = (ds \<noteq> [] \<and> list_all isDigit ds)"
| "wellFormedValue (Bare w) = (wordName w \<and> \<not> isDigit (hd w))"

definition renderPair :: "jsstring \<times> argValue \<Rightarrow> jsstring" where
  "renderPair p = fst p @ [61] @ renderValue (snd p)"

fun renderArgs :: "(jsstring \<times> argValue) list \<Rightarrow> jsstring" where
  "renderArgs [] = []"
| "renderArgs [p] = renderPair p"
| "renderArgs (p # q # ps) = renderPair p @ [44, 32] @ renderArgs (q # ps)"

definition callString :: "jsstring \<Rightarrow> (jsstring \<times> argValue) list \<Rightarrow> jsstring" where
  "callString name pairs = name @ [40] @ renderArgs pairs @ [41]"

text \<open>
  The values this development covers: quoted strings that are non-empty and free of their
  own quote, non-empty digit sequences, and words that do not start with a digit. A name
  or key is a non-empty run of word characters, and \<open>valueOf\<close> is the value a pair stands
  for: quoted text and words as strings, digit sequences as numbers.
\<close>

lemma takeWhile_run:
  assumes "list_all P w" and "rest = [] \<or> \<not> P (hd rest)"
  shows "takeWhile P (w @ rest) = w" and "dropWhile P (w @ rest) = rest"
proof -
  from assms(1) have all: "\<And>x. x \<in> set w \<Longrightarrow> P x" by (simp add: list_all_iff)
  from assms(2) have "takeWhile P rest = []" by (cases rest) auto
  with all show "takeWhile P (w @ rest) = w" by (simp add: takeWhile_append2)
  from assms(2) have "dropWhile P rest = rest" by (cases rest) auto
  with all show "dropWhile P (w @ rest) = rest" by (simp add: dropWhile_append2)
qed

lemma quotedAt_here:
  assumes "q \<notin> set c"
  shows "quotedAt q (q # c @ q # rest) = Some (c, rest)"
proof -
  have "list_all (\<lambda>x. x \<noteq> q) c" using assms by (auto simp: list_all_iff)
  from takeWhile_run [OF this, of "q # rest"] show ?thesis
    by (simp add: quotedAt_def)
qed

lemma quotedAt_other: "c \<noteq> q \<Longrightarrow> quotedAt q (c # cs) = None"
  by (simp add: quotedAt_def)

lemma isDigit_word: "isDigit c \<Longrightarrow> isWordChar c"
  by (simp add: isWordChar_def)

lemma word_not_quote: "isWordChar c \<Longrightarrow> c \<noteq> 34 \<and> c \<noteq> 39 \<and> c \<noteq> 61 \<and> c \<noteq> 40 \<and> c \<noteq> 44 \<and> c \<noteq> 32"
  by (auto simp: isWordChar_def isDigit_def)

definition groupsOf :: "jsstring \<Rightarrow> argValue \<Rightarrow> paramGroups" where
  "groupsOf k v =
     (case v of
        DQuoted c \<Rightarrow> \<lparr>key = k, group3 = Some c, group4 = None, group5 = None, group6 = None\<rparr>
      | SQuoted c \<Rightarrow> \<lparr>key = k, group3 = None, group4 = Some c, group5 = None, group6 = None\<rparr>
      | Digits ds \<Rightarrow> \<lparr>key = k, group3 = None, group4 = None, group5 = Some ds, group6 = None\<rparr>
      | Bare w \<Rightarrow> \<lparr>key = k, group3 = None, group4 = None, group5 = None, group6 = Some w\<rparr>)"

lemma key_groupsOf: "key (groupsOf k v) = k"
  by (cases v) (simp_all add: groupsOf_def)

lemma paramValue_groupsOf:
  "wellFormedValue v \<Longrightarrow> paramValue (groupsOf k v) = valueOf v"
  by (cases v) (auto simp: groupsOf_def paramValue_def strOrUndefined_def parseInt_def wordName_def)

lemma paramAt_pair:
  assumes k: "wordName k" and v: "wellFormedValue v" and rest: "rest = [] \<or> \<not> isWordChar (hd rest)"
  shows "paramAt (renderPair (k, v) @ rest) = Some (groupsOf k v, rest)"
proof -
  from k have kall: "list_all isWordChar k" and kne: "k \<noteq> []" by (simp_all add: wordName_def)
  have tk: "takeWhile isWordChar (k @ 61 # renderValue v @ rest) = k"
    and dk: "dropWhile isWordChar (k @ 61 # renderValue v @ rest) = 61 # renderValue v @ rest"
    using takeWhile_run [OF kall, of "61 # renderValue v @ rest"] by (simp_all add: isWordChar_def isDigit_def)
  have val: "(case quotedAt 34 (renderValue v @ rest) of
                Some (c, r) \<Rightarrow>
                  Some (\<lparr>key = k, group3 = Some c, group4 = None, group5 = None, group6 = None\<rparr>, r)
              | None \<Rightarrow>
             (case quotedAt 39 (renderValue v @ rest) of
                Some (c, r) \<Rightarrow>
                  Some (\<lparr>key = k, group3 = None, group4 = Some c, group5 = None, group6 = None\<rparr>, r)
              | None \<Rightarrow>
                  if takeWhile isDigit (renderValue v @ rest) \<noteq> [] then
                    Some (\<lparr>key = k, group3 = None, group4 = None,
                            group5 = Some (takeWhile isDigit (renderValue v @ rest)), group6 = None\<rparr>,
                          dropWhile isDigit (renderValue v @ rest))
                  else if takeWhile isWordChar (renderValue v @ rest) \<noteq> [] then
                    Some (\<lparr>key = k, group3 = None, group4 = None, group5 = None,
                            group6 = Some (takeWhile isWordChar (renderValue v @ rest))\<rparr>,
                          dropWhile isWordChar (renderValue v @ rest))
                  else None))
             = Some (groupsOf k v, rest)"
  proof (cases v)
    case (DQuoted c)
    with v show ?thesis by (simp add: quotedAt_here groupsOf_def)
  next
    case (SQuoted c)
    with v show ?thesis by (simp add: quotedAt_here quotedAt_other groupsOf_def)
  next
    case (Digits ds)
    with v have dne: "ds \<noteq> []" and dall: "list_all isDigit ds" by simp_all
    from rest have r': "rest = [] \<or> \<not> isDigit (hd rest)" using isDigit_word by blast
    from dne dall have hd: "isDigit (hd ds)" by (cases ds) simp_all
    then have nq: "hd ds \<noteq> 34 \<and> hd ds \<noteq> 39" using word_not_quote isDigit_word by blast
    from dne nq have q: "quotedAt 34 (ds @ rest) = None" "quotedAt 39 (ds @ rest) = None"
      by (cases ds; simp add: quotedAt_other)+
    from takeWhile_run [OF dall r'] dne q Digits show ?thesis
      by (simp add: groupsOf_def)
  next
    case (Bare w)
    with v have wne: "w \<noteq> []" and wall: "list_all isWordChar w" and nd: "\<not> isDigit (hd w)"
      by (simp_all add: wordName_def)
    from wne wall have hw: "isWordChar (hd w)" by (cases w) simp_all
    then have nq: "hd w \<noteq> 34 \<and> hd w \<noteq> 39" using word_not_quote by blast
    from wne nq have q: "quotedAt 34 (w @ rest) = None" "quotedAt 39 (w @ rest) = None"
      by (cases w; simp add: quotedAt_other)+
    from wne nd have td: "takeWhile isDigit (w @ rest) = []" by (cases w) simp_all
    from takeWhile_run [OF wall rest] wne q td Bare show ?thesis
      by (simp add: groupsOf_def)
  qed
  show ?thesis
    unfolding paramAt_def renderPair_def
    using kne val by (simp add: tk dk Let_def)
qed

lemma paramAt_nonword: "\<not> isWordChar c \<Longrightarrow> paramAt (c # s) = None"
  by (simp add: paramAt_def)

lemma paramAt_Nil: "paramAt [] = None"
  by (simp add: paramAt_def)

lemma paramLoop_Nil: "paramLoop [] r = r"
  by (subst paramLoop.simps) (simp add: paramAt_Nil)

lemma paramLoop_skip:
  assumes "\<not> isWordChar c"
  shows "paramLoop (c # s) r = paramLoop s r"
proof -
  have "firstMatch paramAt (c # s) = map_option (\<lambda>(p, x). (c # p, x)) (firstMatch paramAt s)"
    using paramAt_nonword [OF assms] by (auto split: option.splits)
  then show ?thesis
    by (subst paramLoop.simps, subst (2) paramLoop.simps) (auto split: option.splits)
qed

lemma paramLoop_pair:
  assumes "wordName k" and "wellFormedValue v" and "rest = [] \<or> \<not> isWordChar (hd rest)"
  shows "paramLoop (renderPair (k, v) @ rest) r = paramLoop rest (assignProp r k (valueOf v))"
proof -
  have "firstMatch paramAt (renderPair (k, v) @ rest) = Some ([], (groupsOf k v, rest))"
    using paramAt_pair [OF assms] by (rule firstMatch_head)
  then show ?thesis
    by (subst paramLoop.simps) (simp add: paramValue_groupsOf [OF assms(2)] key_groupsOf)
qed

definition wellFormedPair :: "jsstring \<times> argValue \<Rightarrow> bool" where
  "wellFormedPair p \<longleftrightarrow> wordName (fst p) \<and> wellFormedValue (snd p)"

lemma paramLoop_renderArgs:
  assumes "list_all wellFormedPair pairs"
  shows "paramLoop (renderArgs pairs) r = foldl (\<lambda>acc p. assignProp acc (fst p) (valueOf (snd p))) r pairs"
  using assms
proof (induction pairs arbitrary: r rule: renderArgs.induct)
  case 1
  show ?case by (simp add: paramLoop_Nil)
next
  case (2 p)
  then have "wordName (fst p)" "wellFormedValue (snd p)" by (simp_all add: wellFormedPair_def)
  from paramLoop_pair [OF this, of "[]" r] show ?case by (simp add: paramLoop_Nil)
next
  case (3 p q ps)
  from "3.prems" have rest: "list_all wellFormedPair (q # ps)" and "wellFormedPair p" by simp_all
  then have wf: "wordName (fst p)" "wellFormedValue (snd p)"
    by (simp_all add: wellFormedPair_def)
  have nw: "\<not> isWordChar 44" "\<not> isWordChar 32" by (simp_all add: isWordChar_def isDigit_def)
  have "paramLoop (renderArgs (p # q # ps)) r
          = paramLoop ([44, 32] @ renderArgs (q # ps)) (assignProp r (fst p) (valueOf (snd p)))"
    using paramLoop_pair [OF wf, of "[44, 32] @ renderArgs (q # ps)" r] nw by simp
  also have "\<dots> = paramLoop (renderArgs (q # ps)) (assignProp r (fst p) (valueOf (snd p)))"
    using nw by (simp add: paramLoop_skip)
  finally show ?case using "3.IH" [OF rest] by simp
qed

lemma trim_id:
  assumes "s \<noteq> []" and "\<not> isWhiteSpace (hd s)" and "\<not> isWhiteSpace (last s)"
  shows "trim s = s"
proof -
  have "dropWhile isWhiteSpace s = s" using assms(1,2) by (simp add: dropWhile_eq_self_iff)
  moreover have "dropWhile isWhiteSpace (rev s) = rev s"
    using assms(1,3) by (simp add: dropWhile_eq_self_iff hd_rev)
  ultimately show ?thesis by (simp add: trim_def)
qed

lemma word_not_space: "isWordChar c \<Longrightarrow> \<not> isWhiteSpace c"
  by (auto simp: isWordChar_def isDigit_def isWhiteSpace_def)

lemma word_not_brace: "isWordChar c \<Longrightarrow> c \<noteq> 123"
  by (auto simp: isWordChar_def isDigit_def)

lemma firstMatch_none_without:
  assumes "x \<notin> set s" and "\<And>c cs. c \<noteq> x \<Longrightarrow> m (c # cs) = None" and "m [] = None"
  shows "firstMatch m s = None"
  using assms(1) by (induction s) (simp_all add: assms(2,3))

lemma jsonMatch_no_brace: "123 \<notin> set s \<Longrightarrow> jsonMatch s = None"
  unfolding jsonMatch_def
  by (subst firstMatch_none_without [of 123]) (simp_all add: jsonAt_def)

lemma trim_callString:
  assumes "wordName name"
  shows "trim (callString name pairs) = callString name pairs"
proof (rule trim_id)
  from assms have ne: "name \<noteq> []" and all: "list_all isWordChar name" by (simp_all add: wordName_def)
  show "callString name pairs \<noteq> []" by (simp add: callString_def)
  from ne all have "isWordChar (hd name)" by (cases name) simp_all
  with ne show "\<not> isWhiteSpace (hd (callString name pairs))"
    by (simp add: callString_def word_not_space)
  show "\<not> isWhiteSpace (last (callString name pairs))"
    by (simp add: callString_def isWhiteSpace_def)
qed

lemma funcMatch_callString:
  assumes "wordName name"
  shows "funcMatch (callString name pairs) = Some (name, renderArgs pairs)"
proof -
  from assms have ne: "name \<noteq> []" and all: "list_all isWordChar name" by (simp_all add: wordName_def)
  have "\<not> isWordChar 40" by (simp add: isWordChar_def isDigit_def)
  with takeWhile_run [OF all, of "40 # renderArgs pairs @ [41]"]
  show ?thesis using ne by (simp add: funcMatch_def callString_def Let_def)
qed

lemma obj_set_fresh: "k \<notin> set (map fst fs) \<Longrightarrow> obj_set fs k v = fs @ [(k, v)]"
  by (induction fs) auto

lemma assign_all_fresh:
  assumes "distinct (map fst pairs)" and "set (map fst pairs) \<inter> set (map fst acc) = {}"
    and "js ''__proto__'' \<notin> set (map fst pairs)"
  shows "foldl (\<lambda>acc p. assignProp acc (fst p) (f (snd p))) acc pairs
           = acc @ map (\<lambda>p. (fst p, f (snd p))) pairs"
  using assms
proof (induction pairs arbitrary: acc)
  case Nil
  show ?case by simp
next
  case (Cons p ps)
  from Cons.prems have fresh: "fst p \<notin> set (map fst acc)" and np: "fst p \<noteq> js ''__proto__''"
    by auto
  then have step: "assignProp acc (fst p) (f (snd p)) = acc @ [(fst p, f (snd p))]"
    by (simp add: assignProp_def obj_set_fresh)
  from Cons.prems have "distinct (map fst ps)"
    and "set (map fst ps) \<inter> set (map fst (acc @ [(fst p, f (snd p))])) = {}"
    and "js ''__proto__'' \<notin> set (map fst ps)"
    by auto
  from Cons.IH [OF this] step show ?case by simp
qed

definition tapArgs :: "(jsstring \<times> argValue) list" where
  "tapArgs = [(js ''package'', DQuoted (js ''com.example'')), (js ''x'', Digits (js ''100'')),
              (js ''mode'', Bare (js ''fast'')), (js ''note'', SQuoted (js ''a b''))]"

text \<open>
  C9, as stated, fails on \<open>Name(...)\<close> strings of the described form: a pair whose key is
  \<open>action\<close> overwrites the name; an empty quoted value becomes \<open>undefined\<close>, not a string; a
  bare word that starts with digits gives the number of its leading digits; a repeated key
  leaves one field; and a quoted value that holds \<open>{... "action" ...}\<close> makes the first
  format win over the function-call format.
\<close>

theorem function_call_form_counterexample:
  \<open>parseActionToObject (JStr (js ''Tap(action="Swipe")'')) = JObj [(js ''action'', JStr (js ''Swipe''))]
   \<and> parseActionToObject (JStr (js ''Type(text="")''))
       = JObj [(js ''action'', JStr (js ''Type'')), (js ''text'', JUndefined)]
   \<and> parseActionToObject (JStr (js ''Tap(x=12ab)''))
       = JObj [(js ''action'', JStr (js ''Tap'')), (js ''x'', JNum 12)]
   \<and> parseActionToObject (JStr (js ''Tap(x=1, x=2)''))
       = JObj [(js ''action'', JStr (js ''Tap'')), (js ''x'', JNum 2)]
   \<and> parseActionToObject (JStr (js ''Type(text='' @ [39] @ js ''{"action":"Tap"}'' @ [39] @ js '')''))
       = JObj [(js ''action'', JStr (js ''Tap''))]\<close>
  by code_simp

text \<open>
  C9, amended. For a name and pairs as above, with no opening brace (code unit 123) in the
  arguments, \<open>parseActionToObject\<close> returns the record that starts as \<open>{action: Name}\<close> and
  is assigned the pairs in the order written (a later pair overrides an earlier one with
  the same key, \<open>action\<close> included; the key \<open>__proto__\<close> assigns nothing). So when the
  keys are pairwise distinct and none is \<open>action\<close> or \<open>__proto__\<close>, the \<open>action\<close> field equals
  the name and there is one field per pair, quoted values kept as strings, digit sequences
  converted to numbers, bare words kept as strings.
\<close>

theorem function_call_form_parsed:
  assumes "wordName name" and "list_all wellFormedPair pairs" and "123 \<notin> set (renderArgs pairs)"
  shows "parseActionToObject (JStr (callString name pairs))
           = JObj (foldl (\<lambda>acc p. assignProp acc (fst p) (valueOf (snd p)))
                     [(js ''action'', JStr name)] pairs)
    \<and> (distinct (map fst pairs) \<and> js ''action'' \<notin> set (map fst pairs)
          \<and> js ''__proto__'' \<notin> set (map fst pairs) \<longrightarrow>
        parseActionToObject (JStr (callString name pairs))
           = JObj ((js ''action'', JStr name) # map (\<lambda>p. (fst p, valueOf (snd p))) pairs))"
proof -
  from assms(1) have all: "list_all isWordChar name" by (simp add: wordName_def)
  then have "123 \<notin> set name" using word_not_brace by (auto simp: list_all_iff)
  with assms(3) have "123 \<notin> set (callString name pairs)" by (simp add: callString_def)
  then have nj: "jsonMatch (callString name pairs) = None" by (rule jsonMatch_no_brace)
  have ne: "callString name pairs \<noteq> []" by (simp add: callString_def)
  have main: "parseActionToObject (JStr (callString name pairs))
           = JObj (foldl (\<lambda>acc p. assignProp acc (fst p) (valueOf (snd p)))
                     [(js ''action'', JStr name)] pairs)"
    using ne
    by (simp add: parseActionToObject_def trim_callString [OF assms(1)] nj
        funcMatch_callString [OF assms(1)] paramLoop_renderArgs [OF assms(2)])
  moreover have "foldl (\<lambda>acc p. assignProp acc (fst p) (valueOf (snd p))) [(js ''action'', JStr name)] pairs
      = (js ''action'', JStr name) # map (\<lambda>p. (fst p, valueOf (snd p))) pairs"
    if "distinct (map fst pairs)" and "js ''action'' \<notin> set (map fst pairs)"
      and "js ''__proto__'' \<notin> set (map fst pairs)"
    using assign_all_fresh [of pairs "[(js ''action'', JStr name)]" valueOf] that by simp
  ultimately show ?thesis by simp
qed

theorem function_call_form_parsed_witness:
  \<open>callString (js ''Launch'') tapArgs
     = js ''Launch(package="com.example", x=100, mode=fast, note='' @ [39] @ js ''a b'' @ [39] @ js '')''
   \<and> parseActionToObject (JStr (callString (js ''Launch'') tapArgs))
     = JObj [(js ''action'', JStr (js ''Launch'')), (js ''package'', JStr (js ''com.example'')),
             (js ''x'', JNum 100), (js ''mode'', JStr (js ''fast'')), (js ''note'', JStr (js ''a b''))]\<close>
proof -
  have w: "wordName (js ''Launch'')" by (simp add: wordName_def js_def isWordChar_def isDigit_def)
  have p: "list_all wellFormedPair tapArgs"
    by (simp add: tapArgs_def wellFormedPair_def wordName_def js_def isWordChar_def isDigit_def)
  have b: "123 \<notin> set (renderArgs tapArgs)"
    by (simp add: tapArgs_def renderPair_def js_def)
  have d: "distinct (map fst tapArgs) \<and> js ''action'' \<notin> set (map fst tapArgs)
          \<and> js ''__proto__'' \<notin> set (map fst tapArgs)"
    by (simp add: tapArgs_def js_def)
  have r: \<open>callString (js ''Launch'') tapArgs
     = js ''Launch(package="com.example", x=100, mode=fast, note='' @ [39] @ js ''a b'' @ [39] @ js '')''\<close>
    by (simp add: callString_def tapArgs_def renderPair_def js_def)
  from function_call_form_parsed [OF w p b, THEN conjunct2, rule_format, OF d] r
  show ?thesis by (simp add: tapArgs_def digitsVal_def js_def)
qed

section \<open>When \<open>parseActionToObject\<close> returns \<open>null\<close>\<close>

text \<open>
  The three formats as the code recognises them on the trimmed string. Format 2 is
  \<open>Name(args)\<close> and format 3 a name with an optional opening bracket before and an optional
  closing bracket after it (each on its own), a name being a non-empty run of word
  characters. Format 1 is: the span of the string from its first opening brace, through
  the first \<open>"action"\<close> (in any letter case) after that brace, to the first closing brace
  after that, is text that \<open>JSON.parse\<close> accepts. \<open>jsonSpan s m\<close> says that \<open>m\<close> is this span
  of \<open>s\<close>; it is what the pattern of format 1 matches (\<open>jsonMatch_iff_span\<close> below).
\<close>

definition funcForm :: "jsstring \<Rightarrow> bool" where
  "funcForm s \<longleftrightarrow> (\<exists>name args. wordName name \<and> s = name @ [40] @ args @ [41])"

definition simpleForm :: "jsstring \<Rightarrow> bool" where
  "simpleForm s \<longleftrightarrow>
     (\<exists>name. wordName name \<and> (s = name \<or> s = 91 # name \<or> s = name @ [93] \<or> s = 91 # name @ [93]))"

definition quotedAction :: jsstring where
  "quotedAction = [34, 97, 99, 116, 105, 111, 110, 34]"

definition sameIgnoringCase :: "jsstring \<Rightarrow> jsstring \<Rightarrow> bool" where
  "sameIgnoringCase q p \<longleftrightarrow> map asciiUpper q = map asciiUpper p"

definition readsAction :: "jsstring \<Rightarrow> bool" where
  "readsAction x \<longleftrightarrow> (\<exists>q r. x = q @ r \<and> sameIgnoringCase q quotedAction)"

definition jsonSpan :: "jsstring \<Rightarrow> jsstring \<Rightarrow> bool" where
  "jsonSpan s m \<longleftrightarrow>
     (\<exists>pre p1 q p2 post.
        s = pre @ [123] @ p1 @ q @ p2 @ [125] @ post
        \<and> m = [123] @ p1 @ q @ p2 @ [125]
        \<and> 123 \<notin> set pre
        \<and> sameIgnoringCase q quotedAction
        \<and> (\<forall>i < length p1. \<not> readsAction (drop i (p1 @ q)))
        \<and> 125 \<notin> set p2)"

definition jsonForm :: "jsstring \<Rightarrow> bool" where
  "jsonForm s \<longleftrightarrow> (\<exists>m v. jsonSpan s m \<and> JSON_parse m = Some v)"

fun isString :: "jsval \<Rightarrow> bool" where
  "isString (JStr s) = True"
| "isString v = False"

lemma matchLitCI_iff:
  "matchLitCI p x = Some r \<longleftrightarrow> (\<exists>q. x = q @ r \<and> sameIgnoringCase q p)"
proof (induction p x rule: matchLitCI.induct)
  case (1 s)
  show ?case by (auto simp: sameIgnoringCase_def)
next
  case (2 p ps)
  show ?case by (auto simp: sameIgnoringCase_def)
next
  case (3 p ps c cs)
  show ?case
  proof (cases "asciiUpper c = asciiUpper p")
    case True
    have "(\<exists>q. c # cs = q @ r \<and> sameIgnoringCase q (p # ps))
            \<longleftrightarrow> (\<exists>q'. cs = q' @ r \<and> sameIgnoringCase q' ps)"
    proof
      assume "\<exists>q. c # cs = q @ r \<and> sameIgnoringCase q (p # ps)"
      then obtain q where q: "c # cs = q @ r" "sameIgnoringCase q (p # ps)" by blast
      then obtain q' where "q = c # q'"
        by (cases q) (auto simp: sameIgnoringCase_def)
      with q show "\<exists>q'. cs = q' @ r \<and> sameIgnoringCase q' ps"
        by (auto simp: sameIgnoringCase_def)
    next
      assume "\<exists>q'. cs = q' @ r \<and> sameIgnoringCase q' ps"
      then obtain q' where "cs = q' @ r" "sameIgnoringCase q' ps" by blast
      with True have "c # cs = (c # q') @ r \<and> sameIgnoringCase (c # q') (p # ps)"
        by (simp add: sameIgnoringCase_def)
      then show "\<exists>q. c # cs = q @ r \<and> sameIgnoringCase q (p # ps)" by blast
    qed
    with True 3 show ?thesis by simp
  next
    case False
    have "\<not> (\<exists>q. c # cs = q @ r \<and> sameIgnoringCase q (p # ps))"
    proof
      assume "\<exists>q. c # cs = q @ r \<and> sameIgnoringCase q (p # ps)"
      then obtain q where q: "c # cs = q @ r" "sameIgnoringCase q (p # ps)" by blast
      then obtain q' where "q = c # q'"
        by (cases q) (auto simp: sameIgnoringCase_def)
      with q False show False by (simp add: sameIgnoringCase_def)
    qed
    with False show ?thesis by simp
  qed
qed

lemma sameIgnoringCase_length: "sameIgnoringCase q p \<Longrightarrow> length q = length p"
  unfolding sameIgnoringCase_def by (metis length_map)

lemma readsAction_iff: "readsAction x \<longleftrightarrow> matchLitCI quotedAction x \<noteq> None"
  unfolding readsAction_def using matchLitCI_iff [of quotedAction x] by auto

lemma firstMatch_sound:
  assumes "firstMatch m s = Some (p, r)"
  shows "s = p @ drop (length p) s \<and> m (drop (length p) s) = Some r
         \<and> (\<forall>i < length p. m (drop i s) = None)"
  using assms
proof (induction s arbitrary: p)
  case Nil
  then show ?case by (auto split: option.splits)
next
  case (Cons c cs)
  show ?case
  proof (cases "m (c # cs)")
    case (Some x)
    with Cons.prems show ?thesis by simp
  next
    case None
    with Cons.prems obtain p' where p: "p = c # p'" and f: "firstMatch m cs = Some (p', r)"
      by (auto split: option.splits)
    from Cons.IH [OF f] have ih: "cs = p' @ drop (length p') cs" "m (drop (length p') cs) = Some r"
      "\<forall>i < length p'. m (drop i cs) = None" by simp_all
    have "\<forall>i < length p. m (drop i (c # cs)) = None"
    proof (intro allI impI)
      fix i assume "i < length p"
      then show "m (drop i (c # cs)) = None"
        using None ih(3) p by (cases i) auto
    qed
    with ih p show ?thesis by simp
  qed
qed

lemma firstMatch_exists:
  assumes "m (drop j s) \<noteq> None" and "j \<le> length s"
  shows "firstMatch m s \<noteq> None"
  using assms
proof (induction s arbitrary: j)
  case Nil
  then show ?case by (auto split: option.splits)
next
  case (Cons c cs)
  show ?case
  proof (cases j)
    case 0
    with Cons.prems show ?thesis by (auto split: option.splits)
  next
    case (Suc k)
    with Cons.prems have "m (drop k cs) \<noteq> None" "k \<le> length cs" by simp_all
    from Cons.IH [OF this] show ?thesis by (auto split: option.splits)
  qed
qed

lemma closeBrace_iff:
  "firstMatch closeBraceAt r = Some (p2, u) \<longleftrightarrow> (\<exists>post. r = p2 @ 125 # post \<and> 125 \<notin> set p2)"
proof
  assume a: "firstMatch closeBraceAt r = Some (p2, u)"
  from firstMatch_sound [OF a] have r: "r = p2 @ drop (length p2) r"
    and h: "closeBraceAt (drop (length p2) r) = Some u"
    and n: "\<forall>i < length p2. closeBraceAt (drop i r) = None" by simp_all
  from h obtain post where d: "drop (length p2) r = 125 # post"
    by (auto simp: closeBraceAt_def split: list.splits if_splits)
  have "125 \<notin> set p2"
  proof
    assume "125 \<in> set p2"
    then obtain i where i: "i < length p2" "p2 ! i = 125" by (auto simp: in_set_conv_nth)
    then have "drop i r = 125 # drop (Suc i) r"
      using r by (metis Cons_nth_drop_Suc length_append nth_append trans_less_add1)
    moreover from n i have "closeBraceAt (drop i r) = None" by blast
    ultimately show False by (simp add: closeBraceAt_def)
  qed
  with r d show "\<exists>post. r = p2 @ 125 # post \<and> 125 \<notin> set p2" by metis
next
  assume "\<exists>post. r = p2 @ 125 # post \<and> 125 \<notin> set p2"
  then obtain post where r: "r = p2 @ 125 # post" and n: "125 \<notin> set p2" by blast
  have "firstMatch closeBraceAt (p2 @ 125 # post) = Some (p2, ())"
  proof (rule firstMatch_skip)
    fix i assume "i < length p2"
    from drop_head [OF this n, of "125 # post"] show "closeBraceAt (drop i p2 @ 125 # post) = None"
      by (auto simp: closeBraceAt_def)
  qed (simp add: closeBraceAt_def)
  with r show "firstMatch closeBraceAt r = Some (p2, u)" by simp
qed

lemma actionThenBrace_iff:
  "actionThenBraceAt x = Some n \<longleftrightarrow>
     (\<exists>q p2 post. x = q @ p2 @ 125 # post \<and> sameIgnoringCase q quotedAction \<and> 125 \<notin> set p2
        \<and> n = 8 + length p2)"
proof
  assume "actionThenBraceAt x = Some n"
  then obtain r p2 u where m: "matchLitCI quotedAction x = Some r"
    and f: "firstMatch closeBraceAt r = Some (p2, u)" and n: "n = 8 + length p2"
    by (auto simp: actionThenBraceAt_def quotedAction_def split: option.splits)
  from m obtain q where "x = q @ r" "sameIgnoringCase q quotedAction" using matchLitCI_iff by blast
  moreover from f obtain post where "r = p2 @ 125 # post" "125 \<notin> set p2" using closeBrace_iff by blast
  ultimately show "\<exists>q p2 post. x = q @ p2 @ 125 # post \<and> sameIgnoringCase q quotedAction
      \<and> 125 \<notin> set p2 \<and> n = 8 + length p2"
    using n by blast
next
  assume "\<exists>q p2 post. x = q @ p2 @ 125 # post \<and> sameIgnoringCase q quotedAction \<and> 125 \<notin> set p2
        \<and> n = 8 + length p2"
  then obtain q p2 post where x: "x = q @ p2 @ 125 # post" and q: "sameIgnoringCase q quotedAction"
    and p: "125 \<notin> set p2" and n: "n = 8 + length p2" by blast
  from x q have "matchLitCI quotedAction x = Some (p2 @ 125 # post)" using matchLitCI_iff by blast
  moreover from p have "firstMatch closeBraceAt (p2 @ 125 # post) = Some (p2, ())"
    using closeBrace_iff by blast
  ultimately show "actionThenBraceAt x = Some n"
    using n by (simp add: actionThenBraceAt_def quotedAction_def)
qed

lemma take_length_append: "take (length a) (a @ b) = a"
  by simp

lemma jsonAt_Cons:
  "firstMatch actionThenBraceAt cs = Some (p1, n) \<Longrightarrow>
     jsonAt (123 # cs) = Some (take (1 + length p1 + n + 1) (123 # cs))"
  by (simp add: jsonAt_def)

lemma take_span:
  assumes "length q = 8"
  shows "take (1 + length p1 + (8 + length p2) + 1) (123 # p1 @ q @ p2 @ 125 # post)
           = 123 # p1 @ q @ p2 @ [125]"
proof -
  have e: "123 # p1 @ q @ p2 @ 125 # post = (123 # p1 @ q @ p2 @ [125]) @ post" by simp
  have l: "1 + length p1 + (8 + length p2) + 1 = length (123 # p1 @ q @ p2 @ [125])"
    using assms by simp
  show ?thesis unfolding e l by (rule take_length_append)
qed

lemma jsonAt_span:
  assumes q: "sameIgnoringCase q quotedAction" and p2: "125 \<notin> set p2"
    and early: "\<forall>i < length p1. \<not> readsAction (drop i (p1 @ q))"
  shows "jsonAt (123 # p1 @ q @ p2 @ 125 # post) = Some (123 # p1 @ q @ p2 @ [125])"
proof -
  let ?x = "q @ p2 @ 125 # post"
  have lq: "length q = 8" using sameIgnoringCase_length [OF q] by (simp add: quotedAction_def)
  have here: "actionThenBraceAt ?x = Some (8 + length p2)"
    using q p2 actionThenBrace_iff [of ?x "8 + length p2"] by blast
  have "firstMatch actionThenBraceAt (p1 @ ?x) = Some (p1, 8 + length p2)"
  proof (rule firstMatch_skip)
    fix i assume i: "i < length p1"
    show "actionThenBraceAt (drop i p1 @ ?x) = None"
    proof (rule ccontr)
      assume "actionThenBraceAt (drop i p1 @ ?x) \<noteq> None"
      then obtain r where "matchLitCI quotedAction (drop i p1 @ ?x) = Some r"
        by (auto simp: actionThenBraceAt_def quotedAction_def split: option.splits)
      then obtain q' where e: "drop i p1 @ ?x = q' @ r" and s: "sameIgnoringCase q' quotedAction"
        using matchLitCI_iff by blast
      have lq': "length q' = 8" using sameIgnoringCase_length [OF s] by (simp add: quotedAction_def)
      have "take 8 (drop i p1 @ ?x) = take 8 (drop i p1 @ q)"
        using i lq by simp
      with e lq' have "q' = take 8 (drop i p1 @ q)" by simp
      then have "drop i p1 @ q = q' @ drop 8 (drop i p1 @ q)"
        by (metis append_take_drop_id)
      moreover have "drop i (p1 @ q) = drop i p1 @ q" using i by simp
      ultimately have "readsAction (drop i (p1 @ q))"
        unfolding readsAction_def using s by auto
      with early i show False by blast
    qed
  qed (rule here)
  from jsonAt_Cons [OF this] show ?thesis
    by (simp only: take_span [OF lq])
qed

lemma jsonAt_not_brace: "c \<noteq> 123 \<Longrightarrow> jsonAt (c # cs) = None"
  by (simp add: jsonAt_def)

lemma jsonMatch_iff_span: "jsonMatch s = Some m \<longleftrightarrow> jsonSpan s m"
proof
  assume "jsonSpan s m"
  then obtain pre p1 q p2 post where s: "s = pre @ [123] @ p1 @ q @ p2 @ [125] @ post"
    and m: "m = [123] @ p1 @ q @ p2 @ [125]" and pre: "123 \<notin> set pre"
    and q: "sameIgnoringCase q quotedAction"
    and early: "\<forall>i < length p1. \<not> readsAction (drop i (p1 @ q))" and p2: "125 \<notin> set p2"
    unfolding jsonSpan_def by blast
  have "firstMatch jsonAt (pre @ 123 # p1 @ q @ p2 @ 125 # post) = Some (pre, 123 # p1 @ q @ p2 @ [125])"
  proof (rule firstMatch_skip)
    fix i assume "i < length pre"
    from drop_head [OF this pre, of "123 # p1 @ q @ p2 @ 125 # post"]
    show "jsonAt (drop i pre @ 123 # p1 @ q @ p2 @ 125 # post) = None"
      by (auto simp: jsonAt_not_brace)
  qed (rule jsonAt_span [OF q p2 early])
  with s m show "jsonMatch s = Some m" by (simp add: jsonMatch_def)
next
  assume "jsonMatch s = Some m"
  then obtain pre where f: "firstMatch jsonAt s = Some (pre, m)"
    by (auto simp: jsonMatch_def split: option.splits)
  define s' where "s' = drop (length pre) s"
  from firstMatch_sound [OF f] have s: "s = pre @ s'" and at: "jsonAt s' = Some m"
    and before: "\<forall>i < length pre. jsonAt (drop i s) = None"
    by (simp_all add: s'_def)
  from at obtain cs p1 n where s': "s' = 123 # cs"
    and f1: "firstMatch actionThenBraceAt cs = Some (p1, n)"
    by (auto simp: jsonAt_def split: list.splits option.splits if_splits)
  from at jsonAt_Cons [OF f1] have m: "m = take (1 + length p1 + n + 1) (123 # cs)"
    unfolding s' by simp
  define x where "x = drop (length p1) cs"
  from firstMatch_sound [OF f1] have cs: "cs = p1 @ x" and ax: "actionThenBraceAt x = Some n"
    and before1: "\<forall>i < length p1. actionThenBraceAt (drop i cs) = None"
    by (simp_all add: x_def)
  from ax obtain q p2 post where x: "x = q @ p2 @ 125 # post"
    and q: "sameIgnoringCase q quotedAction" and p2: "125 \<notin> set p2" and n: "n = 8 + length p2"
    using actionThenBrace_iff by blast
  have lq: "length q = 8" using sameIgnoringCase_length [OF q] by (simp add: quotedAction_def)
  have m': "m = [123] @ p1 @ q @ p2 @ [125]"
    unfolding m n cs x using take_span [OF lq, of p1 p2 post] by simp
  have early: "\<forall>i < length p1. \<not> readsAction (drop i (p1 @ q))"
  proof (intro allI impI notI)
    fix i assume i: "i < length p1" and "readsAction (drop i (p1 @ q))"
    then obtain q' r' where d: "drop i (p1 @ q) = q' @ r'" and s: "sameIgnoringCase q' quotedAction"
      unfolding readsAction_def by blast
    have "drop i cs = drop i (p1 @ q) @ p2 @ 125 # post"
      using i cs x by simp
    with d have e: "drop i cs = q' @ (r' @ p2 @ 125 # post)" by simp
    with s have ml: "matchLitCI quotedAction (drop i cs) = Some (r' @ p2 @ 125 # post)"
      using matchLitCI_iff by blast
    have "closeBraceAt (drop (length (r' @ p2)) (r' @ p2 @ 125 # post)) \<noteq> None"
      by (simp add: closeBraceAt_def)
    then have "firstMatch closeBraceAt (r' @ p2 @ 125 # post) \<noteq> None"
      by (rule firstMatch_exists) simp
    with ml have "actionThenBraceAt (drop i cs) \<noteq> None"
      by (auto simp: actionThenBraceAt_def quotedAction_def split: option.splits)
    moreover from before1 i(1) have "actionThenBraceAt (drop i cs) = None" by simp
    ultimately show False by simp
  qed
  have pre: "123 \<notin> set pre"
  proof
    assume "123 \<in> set pre"
    then obtain i where i: "i < length pre" "pre ! i = 123" by (auto simp: in_set_conv_nth)
    have "drop i pre = pre ! i # drop (Suc i) pre"
      using i(1) by (simp add: Cons_nth_drop_Suc)
    moreover have "drop i s = drop i pre @ s'" using i(1) s by simp
    ultimately have d: "drop i s = 123 # (drop (Suc i) pre @ s')" using i(2) by simp
    have "actionThenBraceAt (drop (length (drop (Suc i) pre @ 123 # p1)) (drop (Suc i) pre @ s')) \<noteq> None"
      using ax s' cs by simp
    then have "firstMatch actionThenBraceAt (drop (Suc i) pre @ s') \<noteq> None"
      by (rule firstMatch_exists) (simp add: s' cs)
    then have "jsonAt (drop i s) \<noteq> None"
      unfolding d by (auto simp: jsonAt_def split: option.splits)
    moreover from before i(1) have "jsonAt (drop i s) = None" by simp
    ultimately show False by simp
  qed
  from s s' cs x m' pre q early p2 show "jsonSpan s m"
    unfolding jsonSpan_def by (intro exI [of _ pre] exI [of _ p1] exI [of _ q] exI [of _ p2] exI [of _ post]) simp
qed

lemma jsonForm_iff: "jsonForm s \<longleftrightarrow> (\<exists>m v. jsonMatch s = Some m \<and> JSON_parse m = Some v)"
  by (simp add: jsonForm_def jsonMatch_iff_span)

lemma funcMatch_form:
  assumes "wordName name"
  shows "funcMatch (name @ [40] @ args @ [41]) = Some (name, args)"
proof -
  from assms have ne: "name \<noteq> []" and all: "list_all isWordChar name" by (simp_all add: wordName_def)
  have "\<not> isWordChar 40" by (simp add: isWordChar_def isDigit_def)
  with takeWhile_run [OF all, of "40 # args @ [41]"]
  show ?thesis using ne by (simp add: funcMatch_def Let_def)
qed

lemma funcMatch_sound:
  assumes "funcMatch s = Some (name, args)"
  shows "wordName name \<and> s = name @ [40] @ args @ [41]"
proof -
  from assms have n: "name = takeWhile isWordChar s" and ne: "name \<noteq> []"
    by (auto simp: funcMatch_def Let_def split: list.splits if_splits)
  from assms obtain rest where d: "dropWhile isWordChar s = 40 # rest" and r: "rest \<noteq> []"
    and l: "last rest = 41" and a: "args = butlast rest"
    by (auto simp: funcMatch_def Let_def split: list.splits if_splits)
  have "s = takeWhile isWordChar s @ dropWhile isWordChar s" by simp
  also have "\<dots> = name @ 40 # (butlast rest @ [last rest])" using n d r by simp
  finally have "s = name @ [40] @ args @ [41]" using a l by simp
  moreover have "list_all isWordChar name"
    unfolding n list_all_iff by (auto dest: set_takeWhileD)
  ultimately show ?thesis using ne by (simp add: wordName_def)
qed

lemma funcMatch_iff: "funcMatch s \<noteq> None \<longleftrightarrow> funcForm s"
proof
  assume "funcMatch s \<noteq> None"
  then obtain name args where "funcMatch s = Some (name, args)" by auto
  from funcMatch_sound [OF this] show "funcForm s" unfolding funcForm_def by blast
next
  assume "funcForm s"
  then obtain name args where "wordName name" "s = name @ [40] @ args @ [41]"
    unfolding funcForm_def by blast
  with funcMatch_form show "funcMatch s \<noteq> None" by simp
qed

lemma simpleMatch_plain:
  assumes "wordName name" and "r = [] \<or> r = [93]"
  shows "simpleMatch (name @ r) = Some name" and "simpleMatch (91 # name @ r) = Some name"
proof -
  from assms(1) have ne: "name \<noteq> []" and all: "list_all isWordChar name" by (simp_all add: wordName_def)
  from ne all have "isWordChar (hd name)" by (cases name) simp_all
  then have h: "hd name \<noteq> 91" by (auto simp: isWordChar_def isDigit_def)
  have r: "r = [] \<or> \<not> isWordChar (hd r)" using assms(2) by (auto simp: isWordChar_def isDigit_def)
  from takeWhile_run [OF all r] ne h assms(2)
  show "simpleMatch (name @ r) = Some name" by (auto simp: simpleMatch_def Let_def)
  from takeWhile_run [OF all r] ne assms(2)
  show "simpleMatch (91 # name @ r) = Some name" by (auto simp: simpleMatch_def Let_def)
qed

lemma simpleMatch_sound:
  assumes "simpleMatch s = Some name"
  shows "wordName name \<and> (s = name \<or> s = 91 # name \<or> s = name @ [93] \<or> s = 91 # name @ [93])"
proof -
  define s1 where "s1 = (if s \<noteq> [] \<and> hd s = 91 then tl s else s)"
  from assms have n: "name = takeWhile isWordChar s1" and ne: "name \<noteq> []"
    and r: "dropWhile isWordChar s1 = [] \<or> dropWhile isWordChar s1 = [93]"
    by (auto simp: simpleMatch_def Let_def s1_def split: if_splits)
  have "s1 = name @ dropWhile isWordChar s1" unfolding n by simp
  with r have s1: "s1 = name \<or> s1 = name @ [93]" by (metis append_Nil2)
  have "s = s1 \<or> s = 91 # s1" unfolding s1_def by (cases s) auto
  with s1 have "s = name \<or> s = 91 # name \<or> s = name @ [93] \<or> s = 91 # name @ [93]" by auto
  moreover have "list_all isWordChar name"
    unfolding n list_all_iff by (auto dest: set_takeWhileD)
  ultimately show ?thesis using ne by (simp add: wordName_def)
qed

lemma simpleMatch_iff: "simpleMatch s \<noteq> None \<longleftrightarrow> simpleForm s"
proof
  assume "simpleMatch s \<noteq> None"
  then obtain name where "simpleMatch s = Some name" by auto
  from simpleMatch_sound [OF this] show "simpleForm s" unfolding simpleForm_def by blast
next
  assume "simpleForm s"
  then obtain name where w: "wordName name"
    and "s = name \<or> s = 91 # name \<or> s = name @ [93] \<or> s = 91 # name @ [93]"
    unfolding simpleForm_def by blast
  then consider "s = name @ []" | "s = 91 # name @ []" | "s = name @ [93]" | "s = 91 # name @ [93]"
    by auto
  then show "simpleMatch s \<noteq> None"
    using simpleMatch_plain [OF w, of "[]"] simpleMatch_plain [OF w, of "[93]"]
    by cases simp_all
qed

lemma trim_empty_iff: "trim s = [] \<longleftrightarrow> list_all isWhiteSpace s"
proof -
  have "dropWhile isWhiteSpace (rev (dropWhile isWhiteSpace s)) = []
          \<longleftrightarrow> dropWhile isWhiteSpace s = []"
  proof
    assume a: "dropWhile isWhiteSpace (rev (dropWhile isWhiteSpace s)) = []"
    show "dropWhile isWhiteSpace s = []"
    proof (rule ccontr)
      assume ne: "dropWhile isWhiteSpace s \<noteq> []"
      then have "\<not> isWhiteSpace (hd (dropWhile isWhiteSpace s))" by (rule hd_dropWhile)
      moreover from a have "\<forall>x \<in> set (dropWhile isWhiteSpace s). isWhiteSpace x"
        by (simp add: dropWhile_eq_Nil_conv)
      ultimately show False using ne by (metis hd_in_set)
    qed
  next
    assume "dropWhile isWhiteSpace s = []"
    then show "dropWhile isWhiteSpace (rev (dropWhile isWhiteSpace s)) = []"
      by (simp only: rev.simps dropWhile.simps)
  qed
  then show ?thesis by (simp add: trim_def dropWhile_eq_Nil_conv list_all_iff)
qed

text \<open>
  C8, as stated, fails on format 1. A JSON object with an \<open>"action"\<close> key and a nested object
  after it is cut at the first closing brace, does not parse, and gives \<open>null\<close>; a JSON
  object that only holds the word \<open>"action"\<close> as a value, with no such key, is returned.
\<close>

theorem parseActionToObject_json_counterexample:
  \<open>JSON_parse (js ''{"action":"Tap","p":{"x":1}}'')
     = Some (JObj [(js ''action'', JStr (js ''Tap'')), (js ''p'', JObj [(js ''x'', JNum 1)])])
   \<and> parseActionToObject (JStr (js ''{"action":"Tap","p":{"x":1}}'')) = JNull
   \<and> parseActionToObject (JStr (js ''{"x":"action"}'')) = JObj [(js ''x'', JStr (js ''action''))]
   \<and> obj_get (parseActionToObject (JStr (js ''{"x":"action"}''))) (js ''action'') = JUndefined\<close>
  by code_simp

text \<open>
  C8, amended. \<open>parseActionToObject\<close> is a total function (the one exception a callee can
  raise, the \<open>SyntaxError\<close> of \<open>JSON.parse\<close>, is caught: \<open>None\<close> above); a non-null object
  (or array) is returned unchanged; and the result is \<open>null\<close> exactly when the input is falsy
  (\<open>null\<close>, \<open>undefined\<close>, \<open>false\<close>, \<open>0\<close>, \<open>NaN\<close>, the empty string), or neither an object nor a
  string, or a string of white space only, or a string whose trimmed text is of none of the
  three formats as defined above.
\<close>

theorem parseActionToObject_null_iff:
  "(typeofObject a \<and> truthy a \<longrightarrow> parseActionToObject a = a)
   \<and> (parseActionToObject a = JNull \<longleftrightarrow>
        \<not> truthy a
        \<or> (\<not> typeofObject a \<and> \<not> isString a)
        \<or> (\<exists>s. a = JStr s \<and>
              (list_all isWhiteSpace s
               \<or> (\<not> jsonForm (trim s) \<and> \<not> funcForm (trim s) \<and> \<not> simpleForm (trim s)))))"
proof (cases a)
  case (JStr s)
  show ?thesis
  proof (cases "trim s = []")
    case True
    then have "list_all isWhiteSpace s" by (simp add: trim_empty_iff)
    with True JStr show ?thesis by (simp add: parseActionToObject_def)
  next
    case False
    then have nw: "\<not> list_all isWhiteSpace s" by (simp add: trim_empty_iff)
    then have ne: "s \<noteq> []" by auto
    show ?thesis
    proof (cases "jsonForm (trim s)")
      case True
      then obtain m v where m: "jsonMatch (trim s) = Some m" and v: "JSON_parse m = Some v"
        unfolding jsonForm_iff by blast
      from jsonMatch_brace [OF m] v JSON_parse_brace obtain fs where "v = JObj fs" by blast
      with m v JStr False True ne nw show ?thesis
        by (simp add: parseActionToObject_def)
    next
      case nj: False
      then have j: "(case jsonMatch (trim s) of None \<Rightarrow> None | Some m \<Rightarrow> JSON_parse m) = None"
        unfolding jsonForm_iff by (auto split: option.splits)
      show ?thesis
      proof (cases "funcMatch (trim s)")
        case (Some p)
        then have "funcForm (trim s)" using funcMatch_iff [of "trim s"] by simp
        with Some JStr False ne nw j show ?thesis
          by (cases p) (simp add: parseActionToObject_def)
      next
        case None
        then have nf: "\<not> funcForm (trim s)" using funcMatch_iff [of "trim s"] by simp
        show ?thesis
        proof (cases "simpleMatch (trim s)")
          case (Some name)
          then have "simpleForm (trim s)" using simpleMatch_iff [of "trim s"] by simp
          with Some None JStr False ne nw j show ?thesis
            by (simp add: parseActionToObject_def)
        next
          case sn: None
          then have "\<not> simpleForm (trim s)" using simpleMatch_iff [of "trim s"] by simp
          with sn None nf nj JStr False ne nw j show ?thesis
            by (simp add: parseActionToObject_def)
        qed
      qed
    qed
  qed
qed (simp_all add: parseActionToObject_def)

theorem parseActionToObject_null_iff_witness:
  "parseActionToObject (JObj [(js ''action'', JStr (js ''Tap''))]) = JObj [(js ''action'', JStr (js ''Tap''))]
   \<and> parseActionToObject (JNum 5) = JNull
   \<and> parseActionToObject (JStr (js ''   '')) = JNull
   \<and> parseActionToObject (JStr (js '' do it '')) = JNull
   \<and> parseActionToObject (JStr (js ''Back'')) \<noteq> JNull"
proof -
  have t: "trim (js '' do it '') = js ''do it''" "trim (js ''Back'') = js ''Back''" by code_simp+
  have "jsonMatch (js ''do it'') = None" by code_simp
  then have j: "\<not> jsonForm (js ''do it'')" by (simp add: jsonForm_iff)
  have "funcMatch (js ''do it'') = None" by code_simp
  then have f: "\<not> funcForm (js ''do it'')" using funcMatch_iff [of "js ''do it''"] by simp
  have "simpleMatch (js ''do it'') = None" by code_simp
  then have s: "\<not> simpleForm (js ''do it'')" using simpleMatch_iff [of "js ''do it''"] by simp
  have "simpleMatch (js ''Back'') = Some (js ''Back'')" by code_simp
  then have b: "simpleForm (js ''Back'')" using simpleMatch_iff [of "js ''Back''"] by simp
  have w: "list_all isWhiteSpace (js ''   '')" "\<not> list_all isWhiteSpace (js ''Back'')"
    by (simp_all add: js_def isWhiteSpace_def)
  have n: "js ''Back'' \<noteq> []" by (simp add: js_def)
  show ?thesis
    using parseActionToObject_null_iff [of "JObj [(js ''action'', JStr (js ''Tap''))]"]
      parseActionToObject_null_iff [of "JNum 5"]
      parseActionToObject_null_iff [of "JStr (js ''   '')"]
      parseActionToObject_null_iff [of "JStr (js '' do it '')"]
      parseActionToObject_null_iff [of "JStr (js ''Back'')"]
      t j f s b w n
    by simp
qed

section \<open>The legacy description\<close>

text \<open>
  What \<open>parseStepData\<close> reads from a legacy description, said on the text itself, without
  the patterns: the content of the first think block, the content of the first answer
  section, and the description with the think/answer markup stripped. The lemmas below
  show that the patterns of the code find exactly these
  (\<open>thinkMatch_iff_span\<close>, \<open>answerMatch_iff_span\<close>, \<open>markupStripped_iff\<close>).
\<close>

text \<open>
  The tags, in any letter case: an opening think tag is \<open><think>\<close> or \<open><thinking>\<close>, a
  closing one \<open></think>\<close> or \<open></thinking>\<close>; the answer tags are \<open><answer>\<close> and
  \<open></answer>\<close>.
\<close>

definition isThinkOpen :: "jsstring \<Rightarrow> bool" where
  "isThinkOpen w \<longleftrightarrow> sameIgnoringCase w (js ''<think>'') \<or> sameIgnoringCase w (js ''<thinking>'')"

definition isThinkClose :: "jsstring \<Rightarrow> bool" where
  "isThinkClose w \<longleftrightarrow> sameIgnoringCase w (js ''</think>'') \<or> sameIgnoringCase w (js ''</thinking>'')"

definition isAnswerOpen :: "jsstring \<Rightarrow> bool" where
  "isAnswerOpen w \<longleftrightarrow> sameIgnoringCase w (js ''<answer>'')"

definition isAnswerClose :: "jsstring \<Rightarrow> bool" where
  "isAnswerClose w \<longleftrightarrow> sameIgnoringCase w (js ''</answer>'')"

text \<open>
  \<open>startsWith tag x\<close>: the text \<open>x\<close> begins with a tag of the given kind.
\<close>

definition startsWith :: "(jsstring \<Rightarrow> bool) \<Rightarrow> jsstring \<Rightarrow> bool" where
  "startsWith tag x \<longleftrightarrow> (\<exists>w r. x = w @ r \<and> tag w)"

text \<open>
  \<open>blockAt opening closing x inner rest\<close>: the text \<open>x\<close> begins with an opening tag, and the
  first closing tag after it encloses \<open>inner\<close> and is followed by \<open>rest\<close> (no closing tag
  begins inside \<open>inner\<close>).
\<close>

definition blockAt ::
  "(jsstring \<Rightarrow> bool) \<Rightarrow> (jsstring \<Rightarrow> bool) \<Rightarrow> jsstring \<Rightarrow> jsstring \<Rightarrow> jsstring \<Rightarrow> bool" where
  "blockAt opening closing x inner rest \<longleftrightarrow>
     (\<exists>otag ctag.
        x = otag @ inner @ ctag @ rest \<and> opening otag \<and> closing ctag
        \<and> (\<forall>i < length inner. \<not> startsWith closing (drop i (inner @ ctag @ rest))))"

text \<open>
  \<open>firstBlock opening closing d inner\<close>: \<open>inner\<close> is the content of the first block of \<open>d\<close>,
  that is of the block at the leftmost position of \<open>d\<close> where a block begins.
\<close>

definition firstBlock ::
  "(jsstring \<Rightarrow> bool) \<Rightarrow> (jsstring \<Rightarrow> bool) \<Rightarrow> jsstring \<Rightarrow> jsstring \<Rightarrow> bool" where
  "firstBlock opening closing d inner \<longleftrightarrow>
     (\<exists>pre x rest.
        d = pre @ x \<and> blockAt opening closing x inner rest
        \<and> (\<forall>i < length pre. \<forall>inner' rest'. \<not> blockAt opening closing (drop i d) inner' rest'))"

text \<open>
  The content of the think tag of a description and the content of its answer section.
\<close>

definition thinkSpan :: "jsstring \<Rightarrow> jsstring \<Rightarrow> bool" where
  "thinkSpan d inner \<longleftrightarrow> firstBlock isThinkOpen isThinkClose d inner"

definition answerSpan :: "jsstring \<Rightarrow> jsstring \<Rightarrow> bool" where
  "answerSpan d inner \<longleftrightarrow> firstBlock isAnswerOpen isAnswerClose d inner"

text \<open>
  What is stripped from a description: a think block, from its opening tag through its
  closing tag, and an answer tag, opening or closing. \<open>thinkCut x rest\<close> and
  \<open>answerTagCut x rest\<close> say that \<open>x\<close> begins with such a piece and that \<open>rest\<close> follows it.
\<close>

definition isAnswerTag :: "jsstring \<Rightarrow> bool" where
  "isAnswerTag w \<longleftrightarrow> isAnswerOpen w \<or> isAnswerClose w"

definition thinkCut :: "jsstring \<Rightarrow> jsstring \<Rightarrow> bool" where
  "thinkCut x rest \<longleftrightarrow> (\<exists>inner. blockAt isThinkOpen isThinkClose x inner rest)"

definition answerTagCut :: "jsstring \<Rightarrow> jsstring \<Rightarrow> bool" where
  "answerTagCut x rest \<longleftrightarrow> (\<exists>w. x = w @ rest \<and> isAnswerTag w)"

text \<open>
  \<open>removed cutAt s t\<close>: \<open>t\<close> is \<open>s\<close> with every piece removed, from left to right: either no
  piece begins anywhere in \<open>s\<close> and \<open>t\<close> is \<open>s\<close>, or \<open>s\<close> is \<open>pre @ x\<close> where the leftmost piece
  begins at \<open>x\<close> and is followed by \<open>rest\<close>, and \<open>t\<close> is \<open>pre\<close> followed by \<open>rest\<close> with every
  piece removed.
\<close>

inductive removed :: "(jsstring \<Rightarrow> jsstring \<Rightarrow> bool) \<Rightarrow> jsstring \<Rightarrow> jsstring \<Rightarrow> bool"
  for cutAt :: "jsstring \<Rightarrow> jsstring \<Rightarrow> bool"
where
  nothing: "\<forall>i rest. \<not> cutAt (drop i s) rest \<Longrightarrow> removed cutAt s s"
| piece: "cutAt x rest \<Longrightarrow> \<forall>i < length pre. \<forall>r. \<not> cutAt (drop i (pre @ x)) r \<Longrightarrow> removed cutAt rest t
          \<Longrightarrow> removed cutAt (pre @ x) (pre @ t)"

text \<open>
  The description with think/answer markup stripped: first the think blocks, then the
  answer tags that are left.
\<close>

definition markupStripped :: "jsstring \<Rightarrow> jsstring \<Rightarrow> bool" where
  "markupStripped d t \<longleftrightarrow> (\<exists>u. removed thinkCut d u \<and> removed answerTagCut u t)"

text \<open>
  A text of white space only (the empty text included).
\<close>

definition blank :: "jsstring \<Rightarrow> bool" where
  "blank t \<longleftrightarrow> list_all isWhiteSpace t"

lemma firstMatch_iff:
  "firstMatch m s = Some (p, r)
     \<longleftrightarrow> (\<exists>x. s = p @ x \<and> m x = Some r \<and> (\<forall>i < length p. m (drop i s) = None))"
proof
  assume "firstMatch m s = Some (p, r)"
  from firstMatch_sound [OF this] show "\<exists>x. s = p @ x \<and> m x = Some r \<and> (\<forall>i < length p. m (drop i s) = None)"
    by blast
next
  assume "\<exists>x. s = p @ x \<and> m x = Some r \<and> (\<forall>i < length p. m (drop i s) = None)"
  then obtain x where x: "s = p @ x" "m x = Some r" "\<forall>i < length p. m (drop i s) = None"
    by blast
  have "firstMatch m (p @ x) = Some (p, r)"
  proof (rule firstMatch_skip)
    fix i assume "i < length p"
    with x(1,3) show "m (drop i p @ x) = None" by simp
  qed (rule x(2))
  with x(1) show "firstMatch m s = Some (p, r)" by simp
qed

lemma firstMatch_None_iff: "firstMatch m s = None \<longleftrightarrow> (\<forall>i. m (drop i s) = None)"
proof
  assume n: "firstMatch m s = None"
  show "\<forall>i. m (drop i s) = None"
  proof
    fix i
    show "m (drop i s) = None"
    proof (cases "i \<le> length s")
      case True
      with firstMatch_exists [of m i s] n show ?thesis by blast
    next
      case False
      have e: "m (drop (length s) s) = None"
        using firstMatch_exists [of m "length s" s] n by blast
      from False have "drop i s = []" by simp
      with e show ?thesis by simp
    qed
  qed
next
  assume a: "\<forall>i. m (drop i s) = None"
  show "firstMatch m s = None"
  proof (rule ccontr)
    assume "firstMatch m s \<noteq> None"
    then obtain p r where "firstMatch m s = Some (p, r)" by auto
    from firstMatch_sound [OF this] a show False by simp
  qed
qed

lemma startsWith_iff:
  assumes "\<And>x r. mc x = Some r \<longleftrightarrow> (\<exists>w. x = w @ r \<and> closing w)"
  shows "startsWith closing x \<longleftrightarrow> mc x \<noteq> None"
  unfolding startsWith_def using assms by auto

lemma blockAt_iff:
  assumes mo: "\<And>x r. mo x = Some r \<longleftrightarrow> (\<exists>w. x = w @ r \<and> opening w)"
    and mc: "\<And>x r. mc x = Some r \<longleftrightarrow> (\<exists>w. x = w @ r \<and> closing w)"
  shows "(case mo x of None \<Rightarrow> None | Some r \<Rightarrow> firstMatch mc r) = Some (inner, rest)
           \<longleftrightarrow> blockAt opening closing x inner rest"
proof
  assume "(case mo x of None \<Rightarrow> None | Some r \<Rightarrow> firstMatch mc r) = Some (inner, rest)"
  then obtain r where r: "mo x = Some r" and f: "firstMatch mc r = Some (inner, rest)"
    by (auto split: option.splits)
  from r mo obtain otag where o: "x = otag @ r" "opening otag" by blast
  from f [unfolded firstMatch_iff] obtain y where y: "r = inner @ y" "mc y = Some rest"
    "\<forall>i < length inner. mc (drop i r) = None" by blast
  from y(2) mc obtain ctag where c: "y = ctag @ rest" "closing ctag" by blast
  have "\<forall>i < length inner. \<not> startsWith closing (drop i (inner @ ctag @ rest))"
    using y(1,3) c(1) startsWith_iff [of mc closing, OF mc] by simp
  with o y(1) c show "blockAt opening closing x inner rest"
    unfolding blockAt_def by blast
next
  assume "blockAt opening closing x inner rest"
  then obtain otag ctag where b: "x = otag @ inner @ ctag @ rest" "opening otag" "closing ctag"
    "\<forall>i < length inner. \<not> startsWith closing (drop i (inner @ ctag @ rest))"
    unfolding blockAt_def by blast
  from b(1,2) mo have r: "mo x = Some (inner @ ctag @ rest)" by blast
  from b(3) mc have c: "mc (ctag @ rest) = Some rest" by blast
  have "\<forall>i < length inner. mc (drop i (inner @ ctag @ rest)) = None"
    using b(4) startsWith_iff [of mc closing, OF mc] by simp
  with c have "firstMatch mc (inner @ ctag @ rest) = Some (inner, rest)"
    unfolding firstMatch_iff by blast
  with r show "(case mo x of None \<Rightarrow> None | Some r \<Rightarrow> firstMatch mc r) = Some (inner, rest)"
    by simp
qed

lemma firstBlock_iff:
  assumes "\<And>x inner rest. am x = Some (inner, rest) \<longleftrightarrow> blockAt opening closing x inner rest"
  shows "(case firstMatch am d of None \<Rightarrow> None | Some (pre, (inner, rest)) \<Rightarrow> Some inner) = Some inner
           \<longleftrightarrow> firstBlock opening closing d inner"
proof
  assume "(case firstMatch am d of None \<Rightarrow> None | Some (pre, (inner, rest)) \<Rightarrow> Some inner) = Some inner"
  then obtain pre rest where "firstMatch am d = Some (pre, (inner, rest))"
    by (auto split: option.splits)
  from this [unfolded firstMatch_iff] obtain x where x: "d = pre @ x" "am x = Some (inner, rest)"
    "\<forall>i < length pre. am (drop i d) = None" by blast
  have "\<forall>i < length pre. \<forall>inner' rest'. \<not> blockAt opening closing (drop i d) inner' rest'"
    using x(3) assms by (metis option.distinct(1))
  with x(1,2) assms show "firstBlock opening closing d inner"
    unfolding firstBlock_def by blast
next
  assume "firstBlock opening closing d inner"
  then obtain pre x rest where b: "d = pre @ x" "blockAt opening closing x inner rest"
    "\<forall>i < length pre. \<forall>inner' rest'. \<not> blockAt opening closing (drop i d) inner' rest'"
    unfolding firstBlock_def by blast
  have "\<forall>i < length pre. am (drop i d) = None"
  proof (intro allI impI)
    fix i assume i: "i < length pre"
    show "am (drop i d) = None"
    proof (cases "am (drop i d)")
      case (Some a)
      then obtain inner' rest' where "am (drop i d) = Some (inner', rest')" by (cases a) auto
      with assms b(3) i show ?thesis by blast
    qed simp
  qed
  with b(1,2) assms have "firstMatch am d = Some (pre, (inner, rest))"
    unfolding firstMatch_iff by blast
  then show "(case firstMatch am d of None \<Rightarrow> None | Some (pre, (inner, rest)) \<Rightarrow> Some inner) = Some inner"
    by simp
qed

lemma matchLitCI_append:
  "matchLitCI (a @ b) x = (case matchLitCI a x of None \<Rightarrow> None | Some r \<Rightarrow> matchLitCI b r)"
  by (induction a x rule: matchLitCI.induct) simp_all

lemma tagEndAt_eq:
  "tagEndAt r0 = (case matchLitCI (js ''ing>'') r0 of Some r \<Rightarrow> Some r | None \<Rightarrow> matchLitCI (js ''>'') r0)"
proof -
  have e: "js ''ing>'' = js ''ing'' @ js ''>''" by (simp add: js_def)
  show ?thesis
    by (simp add: tagEndAt_def e matchLitCI_append split: option.splits)
qed

lemma tagEndAt_iff:
  "tagEndAt r0 = Some r \<longleftrightarrow> matchLitCI (js ''ing>'') r0 = Some r \<or> matchLitCI (js ''>'') r0 = Some r"
proof -
  have "matchLitCI (js ''ing>'') r0 = None" if "matchLitCI (js ''>'') r0 = Some r"
    using that by (cases r0) (auto simp: js_def asciiUpper_def split: if_splits)
  then show ?thesis
    unfolding tagEndAt_eq by (auto split: option.splits)
qed

lemma thinkOpenAt_iff: "thinkOpenAt x = Some r \<longleftrightarrow> (\<exists>w. x = w @ r \<and> isThinkOpen w)"
proof -
  have e: "js ''<thinking>'' = js ''<think'' @ js ''ing>''" "js ''<think>'' = js ''<think'' @ js ''>''"
    by (simp_all add: js_def)
  have "thinkOpenAt x = Some r
          \<longleftrightarrow> matchLitCI (js ''<thinking>'') x = Some r \<or> matchLitCI (js ''<think>'') x = Some r"
    unfolding thinkOpenAt_def e matchLitCI_append
    by (auto simp: tagEndAt_iff split: option.splits)
  then show ?thesis
    unfolding matchLitCI_iff isThinkOpen_def by blast
qed

lemma thinkCloseAt_iff: "thinkCloseAt x = Some r \<longleftrightarrow> (\<exists>w. x = w @ r \<and> isThinkClose w)"
proof -
  have e: "js ''</thinking>'' = js ''</think'' @ js ''ing>''" "js ''</think>'' = js ''</think'' @ js ''>''"
    by (simp_all add: js_def)
  have "thinkCloseAt x = Some r
          \<longleftrightarrow> matchLitCI (js ''</thinking>'') x = Some r \<or> matchLitCI (js ''</think>'') x = Some r"
    unfolding thinkCloseAt_def e matchLitCI_append
    by (auto simp: tagEndAt_iff split: option.splits)
  then show ?thesis
    unfolding matchLitCI_iff isThinkClose_def by blast
qed

lemma thinkAt_iff: "thinkAt x = Some (inner, rest) \<longleftrightarrow> blockAt isThinkOpen isThinkClose x inner rest"
  unfolding thinkAt_def by (rule blockAt_iff) (rule thinkOpenAt_iff thinkCloseAt_iff)+

lemma answerAt_iff: "answerAt x = Some (inner, rest) \<longleftrightarrow> blockAt isAnswerOpen isAnswerClose x inner rest"
  unfolding answerAt_def
  by (rule blockAt_iff) (simp_all only: matchLitCI_iff isAnswerOpen_def isAnswerClose_def)

lemma thinkMatch_iff_span: "thinkMatch d = Some inner \<longleftrightarrow> thinkSpan d inner"
  unfolding thinkMatch_def thinkSpan_def by (rule firstBlock_iff) (rule thinkAt_iff)

lemma answerMatch_iff_span: "answerMatch d = Some inner \<longleftrightarrow> answerSpan d inner"
  unfolding answerMatch_def answerSpan_def by (rule firstBlock_iff) (rule answerAt_iff)

lemma removed_eraseAll:
  assumes cutAt: "\<And>x rest. cutAt x rest \<longleftrightarrow> m x = Some rest"
    and shorter: "\<And>x rest. m x = Some rest \<Longrightarrow> length rest < length x"
  shows "removed cutAt s (eraseAll m s)"
proof (induction "length s" arbitrary: s rule: less_induct)
  case less
  show ?case
  proof (cases "firstMatch m s")
    case None
    then have "\<forall>i rest. \<not> cutAt (drop i s) rest"
      unfolding firstMatch_None_iff cutAt by simp
    then have "removed cutAt s s" by (rule removed.nothing)
    with None show ?thesis by (simp add: eraseAll_no_match)
  next
    case (Some a)
    obtain p rest where a: "a = (p, rest)" by (cases a)
    from Some [unfolded a firstMatch_iff] obtain x where x: "s = p @ x" "m x = Some rest"
      "\<forall>i < length p. m (drop i s) = None" by blast
    from shorter [OF x(2)] x(1) have "length rest < length s" by simp
    from less [OF this] have ih: "removed cutAt rest (eraseAll m rest)" .
    have "removed cutAt (p @ x) (p @ eraseAll m rest)"
    proof (rule removed.piece [OF _ _ ih])
      show "cutAt x rest" using x(2) cutAt by simp
      show "\<forall>i < length p. \<forall>r. \<not> cutAt (drop i (p @ x)) r"
        using x(1,3) cutAt by simp
    qed
    moreover have "eraseAll m s = p @ eraseAll m rest"
      using Some a by (subst eraseAll_unguarded [OF shorter]) simp_all
    ultimately show ?thesis using x(1) by simp
  qed
qed

lemma removed_unique:
  assumes cutAt: "\<And>x rest. cutAt x rest \<longleftrightarrow> m x = Some rest"
    and shorter: "\<And>x rest. m x = Some rest \<Longrightarrow> length rest < length x"
    and r: "removed cutAt s t"
  shows "t = eraseAll m s"
  using r
proof (induction rule: removed.induct)
  case (nothing s)
  then have "firstMatch m s = None"
    unfolding firstMatch_None_iff cutAt by simp
  then show ?case by (simp add: eraseAll_no_match)
next
  case (piece x rest pre t)
  have "firstMatch m (pre @ x) = Some (pre, rest)"
    unfolding firstMatch_iff using piece.hyps(1,2) cutAt by auto
  then have "eraseAll m (pre @ x) = pre @ eraseAll m rest"
    by (subst eraseAll_unguarded [OF shorter]) simp_all
  with piece.IH show ?case by simp
qed

lemma removed_iff:
  assumes "\<And>x rest. cutAt x rest \<longleftrightarrow> m x = Some rest"
    and "\<And>x rest. m x = Some rest \<Longrightarrow> length rest < length x"
  shows "removed cutAt s t \<longleftrightarrow> t = eraseAll m s"
  using removed_eraseAll [of cutAt m s, OF assms] removed_unique [of cutAt m s t, OF assms] by blast

lemma thinkCut_iff: "thinkCut x rest \<longleftrightarrow> map_option snd (thinkAt x) = Some rest"
  unfolding thinkCut_def using thinkAt_iff [of x _ rest] by auto

lemma answerTagAt_iff: "answerTagCut x rest \<longleftrightarrow> answerTagAt x = Some rest"
proof -
  have "matchLitCI (js ''</answer>'') x = None" if "matchLitCI (js ''<answer>'') x = Some rest"
  proof (cases x)
    case Nil
    with that show ?thesis by (simp add: js_def)
  next
    case (Cons c cs)
    with that show ?thesis
      by (cases cs) (auto simp: js_def asciiUpper_def split: if_splits)
  qed
  then have "answerTagAt x = Some rest
        \<longleftrightarrow> matchLitCI (js ''</answer>'') x = Some rest \<or> matchLitCI (js ''<answer>'') x = Some rest"
    unfolding answerTagAt_def by (auto split: option.splits)
  then show ?thesis
    unfolding answerTagCut_def isAnswerTag_def isAnswerOpen_def isAnswerClose_def matchLitCI_iff
    by blast
qed

lemma removed_think_iff: "removed thinkCut d u \<longleftrightarrow> u = stripThink d"
  unfolding stripThink_def
  by (rule removed_iff) (auto simp: thinkCut_iff dest: thinkAt_shorter)

lemma removed_answer_iff: "removed answerTagCut u t \<longleftrightarrow> t = stripAnswerTags u"
  unfolding stripAnswerTags_def
  by (rule removed_iff) (auto simp: answerTagAt_iff dest: answerTagAt_shorter)

lemma markupStripped_iff: "markupStripped d t \<longleftrightarrow> t = stripAnswerTags (stripThink d)"
  unfolding markupStripped_def removed_think_iff removed_answer_iff by simp

lemma blank_iff: "blank t \<longleftrightarrow> trim t = []"
  unfolding blank_def by (simp add: trim_empty_iff)




section \<open>Steps that produce no chat item\<close>

lemma parseStepData_empty:
  assumes "parseActionToObject (action st) = JNull" and "\<not> truthyStr (thinking st)"
    and "\<not> truthyStr (description st)"
  shows "parseStepData st = (None, JNull)"
  using assms by (simp add: parseStepData_def Let_def)

lemma convertStep_empty:
  assumes "parseActionToObject (action st) = JNull" and "\<not> truthyStr (thinking st)"
    and "\<not> truthyStr (description st)"
  shows "convertStep st acc = acc"
  using assms by (simp add: convertStep_def parseStepData_empty)

text \<open>
  A description yields nothing when its think tag, if there is one, holds white space
  only, no action is parsed from its answer section, if there is one, and white space
  only is left of it once the think/answer markup is stripped.
\<close>

definition legacyYieldsNothing :: "jsstring \<Rightarrow> bool" where
  "legacyYieldsNothing d \<longleftrightarrow>
     (\<forall>inner. thinkSpan d inner \<longrightarrow> blank inner)
     \<and> (\<forall>inner. answerSpan d inner \<longrightarrow> parseActionToObject (JStr (trim inner)) = JNull)
     \<and> (\<exists>t. markupStripped d t \<and> blank t)"

lemma legacyYieldsNothing_iff:
  "legacyYieldsNothing d \<longleftrightarrow>
     (\<forall>inner. thinkMatch d = Some inner \<longrightarrow> trim inner = [])
     \<and> (\<forall>inner. answerMatch d = Some inner \<longrightarrow> parseActionToObject (JStr (trim inner)) = JNull)
     \<and> trim (stripAnswerTags (stripThink d)) = []"
  unfolding legacyYieldsNothing_def thinkMatch_iff_span answerMatch_iff_span markupStripped_iff blank_iff
  by simp

lemma parseActionToObject_empty: "parseActionToObject (JStr []) = JNull"
  by (simp add: parseActionToObject_falsy)

lemma convertStep_legacy_nothing:
  assumes "parseActionToObject (action st) = JNull" and "\<not> truthyStr (thinking st)"
    and "description st = Some d" and "d \<noteq> []" and "legacyYieldsNothing d"
  shows "convertStep st acc = acc"
proof -
  from assms(5) have c: "\<forall>inner. thinkMatch d = Some inner \<longrightarrow> trim inner = []"
    "\<forall>inner. answerMatch d = Some inner \<longrightarrow> parseActionToObject (JStr (trim inner)) = JNull"
    "trim (stripAnswerTags (stripThink d)) = []"
    unfolding legacyYieldsNothing_iff by simp_all
  have th: "\<not> truthyStr (map_option trim (thinkMatch d))"
    using c(1) by (cases "thinkMatch d") simp_all
  have act: "parseActionToObject (JStr
              (case answerMatch d of
                 Some inner \<Rightarrow> trim inner
               | None \<Rightarrow> trim (stripAnswerTags (stripThink d)))) = JNull"
    using c(2,3) by (cases "answerMatch d") (simp_all add: parseActionToObject_empty)
  have p: "parseStepData st = (map_option trim (thinkMatch d), JNull)"
    using parseStepData_legacy_Some [OF assms(2,1,3,4)] act by simp
  show ?thesis
    using th c(3) assms(3,4) by (simp add: convertStep_def p Let_def)
qed

lemma convertStep_legacy_something:
  assumes "parseActionToObject (action st) = JNull" and "\<not> truthyStr (thinking st)"
    and "description st = Some d" and "d \<noteq> []" and "\<not> legacyYieldsNothing d"
  shows "snd (convertStep st acc) \<noteq> snd acc"
proof -
  let ?th = "map_option trim (thinkMatch d)"
  let ?act = "parseActionToObject (JStr
              (case answerMatch d of
                 Some inner \<Rightarrow> trim inner
               | None \<Rightarrow> trim (stripAnswerTags (stripThink d))))"
  have p: "parseStepData st = (?th, ?act)"
    using parseStepData_legacy_Some [OF assms(2,1,3,4)] .
  from assms(5) consider
      (t) "truthyStr ?th"
    | (a) "\<not> truthyStr ?th" "?act \<noteq> JNull"
    | (c) "\<not> truthyStr ?th" "?act = JNull" "trim (stripAnswerTags (stripThink d)) \<noteq> []"
    unfolding legacyYieldsNothing_iff
    by (cases "thinkMatch d"; cases "answerMatch d") auto
  then show ?thesis
  proof cases
    case t
    then show ?thesis
      by (simp add: convertStep_def p Let_def)
  next
    case a
    then show ?thesis
      by (simp add: convertStep_def p Let_def truthy_parseActionToObject)
  next
    case c
    then show ?thesis
      using assms(3,4) by (simp add: convertStep_def p Let_def)
  qed
qed

text \<open>
  C6, as stated, fails: a step whose action is \<open>null\<close> and whose thinking is empty still
  produces chat items when it carries a legacy description. The description \<open>Finish\<close> gives
  an action card, the description \<open>wait for the page\<close> a thinking bubble.
\<close>

theorem description_only_step_counterexample:
  "parseActionToObject (action (legacyStep (js ''Finish''))) = JNull
   \<and> \<not> truthyStr (thinking (legacyStep (js ''Finish'')))
   \<and> map item_type (convertStepsToChatItems [legacyStep (js ''Finish'')]) = [Action]
   \<and> map actionData (convertStepsToChatItems [legacyStep (js ''Finish'')])
        = [Some (JObj [(js ''action'', JStr (js ''Finish''))])]
   \<and> map item_type (convertStepsToChatItems [legacyStep (js ''wait for the page'')]) = [Thinking]
   \<and> map item_content (convertStepsToChatItems [legacyStep (js ''wait for the page'')])
        = [Some (js ''wait for the page'')]"
  by code_simp

text \<open>
  C6, amended. A step whose action parses to \<open>null\<close> and whose thinking is empty produces
  no chat item exactly when its legacy description yields nothing: the description is
  empty (\<open>null\<close> or the empty string), or its think tag, if any, holds white space only, no
  action is parsed from its answer section, if any, and white space only is left of it
  once the think/answer markup is stripped. Such a step converts to the empty list alone,
  and inside any list of steps it can be left out without changing the items (ids
  included).
\<close>

theorem empty_step_emits_nothing:
  assumes "parseActionToObject (action st) = JNull" and "\<not> truthyStr (thinking st)"
  shows "(convertStepsToChatItems [st] = [] \<longleftrightarrow>
            \<not> truthyStr (description st)
            \<or> (\<exists>d. description st = Some d \<and> legacyYieldsNothing d))
    \<and> (convertStepsToChatItems [st] = [] \<longrightarrow>
         convertStepsToChatItems (before @ st # after) = convertStepsToChatItems (before @ after))"
proof (cases "truthyStr (description st)")
  case False
  with assms have "convertStep st acc = acc" for acc
    by (simp add: convertStep_empty)
  with False show ?thesis by (simp add: convertStepsToChatItems_def)
next
  case True
  then obtain d where d: "description st = Some d" "d \<noteq> []"
    by (cases "description st") simp_all
  show ?thesis
  proof (cases "legacyYieldsNothing d")
    case y: True
    have "convertStep st acc = acc" for acc
      using convertStep_legacy_nothing [OF assms d y] .
    with d y show ?thesis by (simp add: convertStepsToChatItems_def)
  next
    case n: False
    from convertStep_legacy_something [OF assms d n, of "(1, [])"]
    have "convertStepsToChatItems [st] \<noteq> []" by (simp add: convertStepsToChatItems_def)
    with True d n show ?thesis by simp
  qed
qed

theorem empty_step_emits_nothing_witness:
  "convertStepsToChatItems [(legacyStep [])\<lparr>action := JStr (js ''not an action'')\<rparr>] = []
   \<and> convertStepsToChatItems [legacyStep (js ''   '')] = []
   \<and> convertStepsToChatItems [legacyStep (js ''<think> </think> <answer></answer>'')] = []
   \<and> convertStepsToChatItems
        [legacyStep (js ''Finish''), legacyStep (js ''<think> </think> <answer></answer>'')]
      = convertStepsToChatItems [legacyStep (js ''Finish'')]
   \<and> convertStepsToChatItems [legacyStep (js ''wait for the page'')] \<noteq> []"
proof -
  let ?st1 = "(legacyStep [])\<lparr>action := JStr (js ''not an action'')\<rparr>"
  let ?d2 = "js ''   ''"
  let ?d3 = "js ''<think> </think> <answer></answer>''"
  let ?d4 = "js ''wait for the page''"
  have a1: "parseActionToObject (action ?st1) = JNull" by code_simp
  have t1: "\<not> truthyStr (thinking ?st1)" by (simp add: legacyStep_def)
  have leg: "parseActionToObject (action (legacyStep x)) = JNull" "\<not> truthyStr (thinking (legacyStep x))"
    "description (legacyStep x) = Some x" for x
    by (simp_all add: legacyStep_def parseActionToObject_def)
  have m2: "thinkMatch ?d2 = None" "answerMatch ?d2 = None"
    "trim (stripAnswerTags (stripThink ?d2)) = []"
    by code_simp+
  have m3: "thinkMatch ?d3 = Some (js '' '')" "trim (js '' '') = []" "answerMatch ?d3 = Some []"
    "parseActionToObject (JStr (trim [])) = JNull" "trim (stripAnswerTags (stripThink ?d3)) = []"
    by code_simp+
  have m4: "trim (stripAnswerTags (stripThink ?d4)) \<noteq> []" by code_simp
  have y2: "legacyYieldsNothing ?d2"
    unfolding legacyYieldsNothing_iff using m2 by simp
  have y3: "legacyYieldsNothing ?d3"
    unfolding legacyYieldsNothing_iff using m3 by simp
  have y4: "\<not> legacyYieldsNothing ?d4"
    unfolding legacyYieldsNothing_iff using m4 by simp
  have ne: "truthyStr (Some ?d4)" by (simp add: js_def)
  have c1: "convertStepsToChatItems [?st1] = []"
    using empty_step_emits_nothing [OF a1 t1, THEN conjunct1] by (simp add: legacyStep_def)
  have c2: "convertStepsToChatItems [legacyStep ?d2] = []"
    using empty_step_emits_nothing [OF leg(1,2), of ?d2, THEN conjunct1] y2 leg(3) by simp
  have c3: "convertStepsToChatItems [legacyStep ?d3] = []"
    using empty_step_emits_nothing [OF leg(1,2), of ?d3, THEN conjunct1] y3 leg(3) by simp
  have c4: "convertStepsToChatItems [legacyStep (js ''Finish''), legacyStep ?d3]
      = convertStepsToChatItems [legacyStep (js ''Finish'')]"
    using empty_step_emits_nothing [OF leg(1,2), of ?d3 "[legacyStep (js ''Finish'')]" "[]",
        THEN conjunct2] c3 by simp
  have c5: "convertStepsToChatItems [legacyStep ?d4] \<noteq> []"
    using empty_step_emits_nothing [OF leg(1,2), of ?d4, THEN conjunct1] y4 ne leg(3) [of ?d4]
    by simp
  from c1 c2 c3 c4 c5 show ?thesis by blast
qed

section \<open>The live screen and its fallback\<close>

subsection \<open>\<open>ScrcpyPlayer\<close> and the flag of the page\<close>









subsection \<open>What the pages render\<close>





subsection \<open>\<open>ScreenshotViewer\<close>\<close>





























end
